theory Spec2Isabelle
  imports Complex_Main "HOL-Library.Multiset" "HOL-Library.Word"
begin

unbundle bit_operations_syntax

section \<open>The TTN Ulm particulate matter node (ttnulmdust.ino)\<close>

text \<open>
  The sketch has three parts that carry logic: the watchdog interrupt handler
  \<open>ISR(WDT_vect)\<close>, the duty cycle \<open>loop()\<close> and the helpers \<open>median\<close> and
  \<open>bubbleSort\<close>. Each is translated below, statement by statement.

  Conventions of the embedding.
  \<^item> A C \<open>float\<close> is a value of IEEE 754 binary32 (type \<open>float\<close> below): a finite
    value, an infinity or NaN, with round to nearest, ties to even, after every
    operation.
  \<^item> \<open>uint16_t\<close> and \<open>int16_t\<close> are \<open>16 word\<close>, \<open>long\<close> and \<open>unsigned long\<close> are
    \<open>32 word\<close> (the sizes of the AVR target), \<open>byte\<close> is \<open>8 word\<close>.
  \<^item> The \<open>int\<close> parameters \<open>m\<close> and \<open>len\<close> are integers; the loop counters, which start
    at 0 or 1 and only count upwards, are natural numbers. No arithmetic on them can
    overflow for an array that fits the target's memory.
  \<^item> A C array is a list. A read or write outside the array is undefined behaviour in C;
    the model makes it the fault \<open>OutOfBounds\<close>.
  \<^item> A loop whose termination is not evident from its header (the \<open>do ... while\<close> of
    \<open>bubbleSort\<close>) returns an \<open>option\<close>: \<open>None\<close> stands for a run that never ends.
  \<^item> Console output (\<open>debugSerial\<close>) and the debug LED are left out.
\<close>

datatype fault = OutOfBounds | NegativeArraySize

subsection \<open>Floats\<close>

text \<open>
  \<open>Finite r\<close> is the finite float of value \<open>r\<close>. Not every rational is the value of a
  float; \<open>fl32\<close> below rounds any rational to one that is, and every operation returns
  its result through \<open>fl32\<close>. The two zeroes of binary32 are one value here: the sketch
  compares floats, adds them, scales them and converts them to integers, and none of
  these tells the zeroes apart.
\<close>

datatype float = Finite rat | PInf | NInf | NaN

text \<open>The comparison \<open><\<close> of C: false whenever one side is NaN.\<close>

fun float_less :: "float \<Rightarrow> float \<Rightarrow> bool" where
  "float_less (Finite a) (Finite b) = (a < b)"
| "float_less (Finite a) PInf = True"
| "float_less NInf (Finite b) = True"
| "float_less NInf PInf = True"
| "float_less x y = False"

text \<open>
  \<open>x < y\<close> and \<open>x > y\<close> on floats are the comparisons of C. The sketch never uses
  \<open>\<le>\<close>; here \<open>x \<le> y\<close> stands for \<open>x = y \<or> x < y\<close>, which makes the floats a partial
  order in which NaN is comparable to nothing but itself.
\<close>

instantiation float :: order
begin

definition less_float :: "float \<Rightarrow> float \<Rightarrow> bool" where
  "less_float x y = float_less x y"

definition less_eq_float :: "float \<Rightarrow> float \<Rightarrow> bool" where
  "less_eq_float x y = (x = y \<or> float_less x y)"

instance
proof
  fix x y z :: float
  show "(x < y) = (x \<le> y \<and> \<not> y \<le> x)"
    by (cases x; cases y) (auto simp: less_float_def less_eq_float_def)
  show "x \<le> x"
    by (simp add: less_eq_float_def)
  show "x \<le> y \<Longrightarrow> y \<le> z \<Longrightarrow> x \<le> z"
    by (cases x; cases y; cases z) (auto simp: less_eq_float_def)
  show "x \<le> y \<Longrightarrow> y \<le> x \<Longrightarrow> x = y"
    by (cases x; cases y) (auto simp: less_eq_float_def)
qed

end

text \<open>Rounding to the nearest integer, a tie going to the even one.\<close>

definition round_half_even :: "rat \<Rightarrow> int" where
  "round_half_even x =
     (let f = \<lfloor>x\<rfloor>; d = x - of_int f
      in if d < 1 / 2 then f else if 1 / 2 < d then f + 1 else if even f then f else f + 1)"

definition pow2 :: "nat \<Rightarrow> rat" where
  "pow2 n = of_int (2 ^ n)"

text \<open>
  The spacing of the floats around a value of magnitude \<open>a\<close>. A binary search finds
  the largest \<open>k\<close> below 256 with \<open>2 ^ k / 2 ^ 126 \<le> a\<close> (0 if there is none), that is
  the exponent \<open>k - 126\<close> of \<open>a\<close>, held at \<open>-126\<close> for the subnormal range; with 24
  bits of precision the spacing is \<open>2 ^ (k - 126 - 23)\<close>.
\<close>

fun find_exp :: "nat list \<Rightarrow> nat \<Rightarrow> rat \<Rightarrow> nat" where
  "find_exp [] k a = k"
| "find_exp (b # bs) k a = find_exp bs (if pow2 (k + b) \<le> a * pow2 126 then k + b else k) a"

definition quantum :: "rat \<Rightarrow> rat" where
  "quantum a = pow2 (find_exp [128, 64, 32, 16, 8, 4, 2, 1] 0 a) / pow2 149"

text \<open>
  The float nearest to the rational \<open>r\<close>: the nearest multiple of the spacing, a tie
  going to the even multiple, and an infinity when that multiple reaches \<open>2 ^ 128\<close>.
\<close>

definition fl32 :: "rat \<Rightarrow> float" where
  "fl32 r =
     (let q = quantum \<bar>r\<bar>; v = of_int (round_half_even (r / q)) * q
      in if pow2 128 \<le> \<bar>v\<bar> then (if 0 < r then PInf else NInf) else Finite v)"

text \<open>Float addition.\<close>

fun fadd :: "float \<Rightarrow> float \<Rightarrow> float" where
  "fadd (Finite a) (Finite b) = fl32 (a + b)"
| "fadd NaN y = NaN"
| "fadd x NaN = NaN"
| "fadd PInf NInf = NaN"
| "fadd NInf PInf = NaN"
| "fadd PInf y = PInf"
| "fadd x PInf = PInf"
| "fadd NInf y = NInf"
| "fadd x NInf = NInf"

text \<open>
  Float multiplication and division by a positive finite constant \<open>c\<close>; the sketch
  multiplies by 100 and divides by 2 only.
\<close>

fun fmul_pos :: "float \<Rightarrow> rat \<Rightarrow> float" where
  "fmul_pos (Finite a) c = fl32 (a * c)"
| "fmul_pos x c = x"

fun fdiv_pos :: "float \<Rightarrow> rat \<Rightarrow> float" where
  "fdiv_pos (Finite a) c = fl32 (a / c)"
| "fdiv_pos x c = x"

subsection \<open>bubbleSort\<close>

text \<open>
  The \<open>for\<close> loop of one pass (source lines 231 to 240). The state is the array and
  \<open>newn\<close>; \<open>temp\<close> is local to the swap. The swap writes \<open>A[p] = A[p - 1]\<close> and then
  \<open>A[p - 1] = temp\<close>, where \<open>temp\<close> is the old \<open>A[p]\<close>.
\<close>

function bubble_pass :: "nat \<Rightarrow> int \<Rightarrow> ('a::order) list \<times> nat \<Rightarrow> fault + 'a list \<times> nat" where
  "bubble_pass p len (A, newn) =
     (if int p < len then
        (if p < length A then
           (if A ! (p - 1) > A ! p
            then bubble_pass (p + 1) len (A[p := A ! (p - 1), p - 1 := A ! p], p)
            else bubble_pass (p + 1) len (A, newn))
         else Inl OutOfBounds)
      else Inr (A, newn))"
  by pat_completeness auto
termination
  by (relation "measure (\<lambda>(p, len, s). nat (len - int p))") auto

declare bubble_pass.simps [simp del]

text \<open>
  The \<open>do ... while (n > 1)\<close> loop (source lines 228 to 243): every round sets
  \<open>newn = 1\<close>, runs one pass from \<open>p = 1\<close>, copies \<open>newn\<close> to \<open>n\<close> and repeats while
  \<open>n > 1\<close>. The result is the array as the caller sees it afterwards.
\<close>

partial_function (option) bubbleSort :: "('a::order) list \<Rightarrow> int \<Rightarrow> (fault + 'a list) option" where
  "bubbleSort A len =
     (case bubble_pass 1 len (A, 1) of
        Inl e \<Rightarrow> Some (Inl e)
      | Inr (A', newn) \<Rightarrow> if newn > 1 then bubbleSort A' len else Some (Inr A'))"

declare bubbleSort.simps [code]

text \<open>The number of pairs of positions that are out of order (used as a measure only).\<close>

fun inversions :: "('a::order) list \<Rightarrow> nat" where
  "inversions [] = 0"
| "inversions (x # xs) = length (filter (\<lambda>y. y < x) xs) + inversions xs"

subsection \<open>median\<close>

text \<open>
  The two arrays that \<open>median\<close> works on: \<open>samples\<close> is the caller's array (passed as a
  pointer) and \<open>sorted_arr\<close> is the local array \<open>float sorted[m]\<close>.
\<close>

record median_frame =
  samples :: "float list"
  sorted_arr :: "float list"

definition array_read :: "'a list \<Rightarrow> int \<Rightarrow> fault + 'a" where
  "array_read xs i = (if 0 \<le> i \<and> i < int (length xs) then Inr (xs ! nat i) else Inl OutOfBounds)"

text \<open>The copy loop (source lines 203 to 206).\<close>

function median_copy :: "nat \<Rightarrow> int \<Rightarrow> median_frame \<Rightarrow> fault + median_frame" where
  "median_copy i m fr =
     (if int i < m then
        (if i < length (samples fr) \<and> i < length (sorted_arr fr)
         then median_copy (i + 1) m (fr\<lparr>sorted_arr := (sorted_arr fr)[i := samples fr ! i]\<rparr>)
         else Inl OutOfBounds)
      else Inr fr)"
  by pat_completeness auto
termination
  by (relation "measure (\<lambda>(i, m, fr). nat (m - int i))") auto

declare median_copy.simps [simp del]

text \<open>
  The \<open>if\<close> at the end of \<open>median\<close> (source lines 210 to 219). \<open>m / 2\<close> is C's division,
  which agrees with \<open>div\<close> for the non-negative \<open>m\<close> that reach this point. The sum and
  the division by 2 are float operations.
\<close>

definition median_select :: "float list \<Rightarrow> int \<Rightarrow> fault + float" where
  "median_select srt m =
     (if m AND 1 = 0 then
        (case array_read srt (m div 2 - 1) of
           Inl e \<Rightarrow> Inl e
         | Inr a \<Rightarrow> (case array_read srt (m div 2) of
                      Inl e \<Rightarrow> Inl e
                    | Inr b \<Rightarrow> Inr (fdiv_pos (fadd a b) 2)))
      else array_read srt (m div 2))"

text \<open>
  The whole of \<open>median\<close>, returning the final frame together with the value. The local
  array is uninitialised in C; the model fills it with zeroes, and the copy loop
  overwrites each of its \<open>m\<close> slots before anything reads it. A negative \<open>m\<close> is no valid
  array size.
\<close>

definition median_run :: "float list \<Rightarrow> int \<Rightarrow> (fault + median_frame \<times> float) option" where
  "median_run smp m =
     (if m < 0 then Some (Inl NegativeArraySize)
      else case median_copy 0 m \<lparr>samples = smp, sorted_arr = replicate (nat m) (Finite 0)\<rparr> of
        Inl e \<Rightarrow> Some (Inl e)
      | Inr fr \<Rightarrow>
          (case bubbleSort (sorted_arr fr) m of
             None \<Rightarrow> None
           | Some (Inl e) \<Rightarrow> Some (Inl e)
           | Some (Inr srt) \<Rightarrow>
               (case median_select srt m of
                  Inl e \<Rightarrow> Some (Inl e)
                | Inr v \<Rightarrow> Some (Inr (fr\<lparr>sorted_arr := srt\<rparr>, v)))))"

definition median :: "float list \<Rightarrow> int \<Rightarrow> (fault + float) option" where
  "median smp m = map_option (map_sum id snd) (median_run smp m)"

text \<open>
  The midpoint rule on a list that is already sorted, in float arithmetic: for an odd
  count the middle element, for an even count the float sum of the two middle elements
  divided by 2.
\<close>

definition midpoint :: "float list \<Rightarrow> float" where
  "midpoint s =
     (let n = length s
      in if odd n then s ! (n div 2)
         else fdiv_pos (fadd (s ! (n div 2 - 1)) (s ! (n div 2))) 2)"

text \<open>
  The median as the specification words it, on the values: sort ascending; for an odd
  count the middle element, for an even count the arithmetic mean of the two middle
  elements.
\<close>

definition spec_median :: "rat list \<Rightarrow> rat" where
  "spec_median S =
     (let s = sort S; n = length s
      in if odd n then s ! (n div 2) else (s ! (n div 2 - 1) + s ! (n div 2)) / 2)"

subsection \<open>Global state, configuration and environment\<close>

text \<open>
  The global variables of the sketch. The global \<open>error\<close> only carries the result of
  \<open>my_sds.read\<close> to the \<open>if\<close> that follows it and is represented by the case distinction
  on the reading.
\<close>

record globals =
  iWakeCntr :: "16 word"
  p10 :: float
  p25 :: float
  samples_p10 :: "float list"
  samples_p25 :: "float list"

text \<open>The state after the C start-up code: every global is zero.\<close>

definition boot :: globals where
  "boot = \<lparr>iWakeCntr = 0, p10 = Finite 0, p25 = Finite 0,
            samples_p10 = replicate 10 (Finite 0), samples_p25 = replicate 10 (Finite 0)\<rparr>"

text \<open>
  Modelled from the spec: \<open>configuration.h\<close> is not among the sources; the macros it
  defines (sleep enabled, deep power-down enabled, fan warm-up in seconds, sleep
  interval in minutes) are parameters.
\<close>

record config =
  SLEEP_ON :: bool
  PWR_DOWN :: bool
  FAN_SPINUP :: int
  SLEEP_TIME :: int

text \<open>
  Modelled from the spec: the SDS011 driver is not among the sources; a read attempt
  yields a pair (PM2.5, PM10), stored through the two pointers, or an error.
\<close>

datatype sds_reading = Reading float float | ReadError

text \<open>
  What the sensors answer during one cycle: humidity and temperature as stored in the
  \<open>int16_t\<close> variables \<open>hint\<close> and \<open>tint\<close>, and the result of the i-th call of
  \<open>my_sds.read\<close>.
\<close>

record env =
  readHumidity :: "16 word"
  readTemperature :: "16 word"
  sds_read :: "nat \<Rightarrow> sds_reading"

text \<open>The calls the cycle makes on the sensor, the radio and the clock, in order.\<close>

datatype event =
    SdsWakeup
  | Delay "32 word"
  | SendBytes "8 word list" nat
  | SdsSleep
  | EnterSleepFor int

subsection \<open>The watchdog interrupt handler\<close>

definition UINT16_MAX :: "16 word" where
  "UINT16_MAX = 0xFFFF"

definition ISR_WDT_vect :: "globals \<Rightarrow> globals" where
  "ISR_WDT_vect g =
     (if iWakeCntr g > UINT16_MAX - 1
      then g\<lparr>iWakeCntr := 0\<rparr>
      else g\<lparr>iWakeCntr := iWakeCntr g + 1\<rparr>)"

subsection \<open>Encoding\<close>

text \<open>
  Modelled from the spec: \<open>round\<close>, \<open>highByte\<close> and \<open>lowByte\<close> are macros of the Arduino
  core, which is not among the sources. \<open>round\<close> rounds a finite value half away from
  zero to an integer; what it gives for an infinity or NaN the spec does not say (and
  C leaves the conversion undefined), so that is the parameter \<open>nf\<close>. \<open>highByte(w)\<close> is
  \<open>(uint8_t)(w >> 8)\<close> and \<open>lowByte(w)\<close> is \<open>(uint8_t)(w & 0xff)\<close>.
\<close>

definition round_half_away :: "rat \<Rightarrow> int" where
  "round_half_away x = (if x \<ge> 0 then \<lfloor>x + 1 / 2\<rfloor> else \<lceil>x - 1 / 2\<rceil>)"

definition arduino_round :: "(float \<Rightarrow> int) \<Rightarrow> float \<Rightarrow> int" where
  "arduino_round nf x = (case x of Finite r \<Rightarrow> round_half_away r | _ \<Rightarrow> nf x)"

definition lowByte :: "16 word \<Rightarrow> 8 word" where
  "lowByte w = ucast (w AND 0xff)"

definition highByte :: "16 word \<Rightarrow> 8 word" where
  "highByte w = ucast (signed_drop_bit 8 w)"

text \<open>
  \<open>int16_t p10int = round(p10median * 100)\<close> (source lines 144 and 145): a float
  multiplication, the rounding, and the conversion to \<open>int16_t\<close>, which keeps the low 16
  bits.
\<close>

definition fixed_point :: "(float \<Rightarrow> int) \<Rightarrow> float \<Rightarrow> 16 word" where
  "fixed_point nf v = word_of_int (arduino_round nf (fmul_pos v 100))"

text \<open>
  Source lines 144 to 169: the two fields and the eight assignments to \<open>payload\<close>, in
  the order of the source. The array is uninitialised in C and zero-filled here.
\<close>

definition encode_payload :: "(float \<Rightarrow> int) \<Rightarrow> float \<Rightarrow> float \<Rightarrow> 16 word \<Rightarrow> 16 word \<Rightarrow> 8 word list" where
  "encode_payload nf p10median p25median hint tint =
     (let p10int = fixed_point nf p10median;
          p25int = fixed_point nf p25median
      in (replicate 8 0)
           [0 := highByte p10int, 1 := lowByte p10int,
            2 := highByte p25int, 3 := lowByte p25int,
            4 := highByte hint, 5 := lowByte hint,
            6 := highByte tint, 7 := lowByte tint])"



subsection \<open>The duty cycle\<close>

text \<open>
  The sampling loop (source lines 121 to 138). A successful read stores both values at
  index \<open>i\<close>, the number of the attempt; a failed one stores nothing. Either way the
  loop waits \<open>delay2\<close> and goes on to the next index.
\<close>

function sample_loop :: "nat \<Rightarrow> int \<Rightarrow> 32 word \<Rightarrow> env \<Rightarrow> globals \<times> event list
    \<Rightarrow> fault + globals \<times> event list" where
  "sample_loop i n delay2 e (g, tr) =
     (if int i < n then
        (case sds_read e i of
           Reading a b \<Rightarrow>
             (if i < length (samples_p25 g) \<and> i < length (samples_p10 g)
              then sample_loop (i + 1) n delay2 e
                     (g\<lparr>p25 := a, p10 := b,
                        samples_p25 := (samples_p25 g)[i := a],
                        samples_p10 := (samples_p10 g)[i := b]\<rparr>,
                      tr @ [Delay delay2])
              else Inl OutOfBounds)
         | ReadError \<Rightarrow> sample_loop (i + 1) n delay2 e (g, tr @ [Delay delay2]))
      else Inr (g, tr))"
  by pat_completeness auto
termination
  by (relation "measure (\<lambda>(i, n, d, e, s). nat (n - int i))") auto

declare sample_loop.simps [simp del]

text \<open>\<open>long delay1 = 1000L * FAN_SPINUP\<close> (source line 102).\<close>

definition delay1 :: "config \<Rightarrow> 32 word" where
  "delay1 c = 1000 * word_of_int (FAN_SPINUP c)"

text \<open>
  The argument of the last \<open>delay\<close> (source line 188), with \<open>samples = 10\<close> and
  \<open>delay2 = 1100\<close>: computed in \<open>long\<close> and passed as \<open>unsigned long\<close>.
\<close>

definition fallback_delay :: "config \<Rightarrow> 32 word" where
  "fallback_delay c = (1000 * 60 * word_of_int (SLEEP_TIME c)) - (delay1 c + 10 * 1100)"

text \<open>Waking the sensor and letting the fan run (source lines 96 to 104).\<close>

definition wake_section :: "config \<Rightarrow> event list" where
  "wake_section c = (if SLEEP_ON c then [SdsWakeup, Delay (delay1 c)] else [])"

text \<open>The sleep section at the end of the cycle (source lines 178 to 191).\<close>

definition sleep_section :: "config \<Rightarrow> event list" where
  "sleep_section c =
     (if SLEEP_ON c
      then SdsSleep # (if PWR_DOWN c then [EnterSleepFor (SLEEP_TIME c)]
                       else [Delay (fallback_delay c)])
      else [])"

text \<open>One run of \<open>loop()\<close>: the globals afterwards and the calls made.\<close>

definition loop :: "(float \<Rightarrow> int) \<Rightarrow> config \<Rightarrow> env \<Rightarrow> globals
    \<Rightarrow> (fault + globals \<times> event list) option" where
  "loop nf c e g =
     (let tr0 = wake_section c;
          hint = readHumidity e;
          tint = readTemperature e
      in case sample_loop 0 10 1100 e (g, tr0) of
           Inl f \<Rightarrow> Some (Inl f)
         | Inr (g1, tr1) \<Rightarrow>
             (case median (samples_p25 g1) 10 of
                None \<Rightarrow> None
              | Some (Inl f) \<Rightarrow> Some (Inl f)
              | Some (Inr p25median) \<Rightarrow>
                  (case median (samples_p10 g1) 10 of
                     None \<Rightarrow> None
                   | Some (Inl f) \<Rightarrow> Some (Inl f)
                   | Some (Inr p10median) \<Rightarrow>
                       Some (Inr (g1, tr1
                         @ [SendBytes (encode_payload nf p10median p25median hint tint) 8]
                         @ sleep_section c)))))"

text \<open>The payloads handed to \<open>sendBytes\<close> in a trace.\<close>

fun sent :: "event list \<Rightarrow> 8 word list list" where
  "sent [] = []"
| "sent (SendBytes p n # tr) = p # sent tr"
| "sent (ev # tr) = sent tr"

text \<open>Inputs used as examples below.\<close>

definition no_sleep :: config where
  "no_sleep = \<lparr>SLEEP_ON = False, PWR_DOWN = False, FAN_SPINUP = 60, SLEEP_TIME = 5\<rparr>"

definition short_sleep :: config where
  "short_sleep = \<lparr>SLEEP_ON = True, PWR_DOWN = False, FAN_SPINUP = 60, SLEEP_TIME = 1\<rparr>"

definition long_sleep :: config where
  "long_sleep = \<lparr>SLEEP_ON = True, PWR_DOWN = False, FAN_SPINUP = 60, SLEEP_TIME = 5\<rparr>"

definition all_reads_fail :: env where
  "all_reads_fail = \<lparr>readHumidity = 0, readTemperature = 0, sds_read = (\<lambda>i. ReadError)\<rparr>"

definition six_reads_fail :: env where
  "six_reads_fail = \<lparr>readHumidity = 0, readTemperature = 0,
                      sds_read = (\<lambda>i. if i < 6 then ReadError else Reading (Finite 5) (Finite 8))\<rparr>"

text \<open>Every read gives PM2.5 = 15 and PM10 = 20.98 (the float nearest to it).\<close>

definition steady_reads :: env where
  "steady_reads = \<lparr>readHumidity = 55, readTemperature = 21,
                    sds_read = (\<lambda>i. Reading (Finite 15) (Finite (5499781 / 262144)))\<rparr>"

text \<open>A conversion of the infinities and NaN to \<open>long\<close>, for the examples.\<close>

definition zero_long :: "float \<Rightarrow> int" where
  "zero_long x = 0"

section \<open>Properties of bubbleSort\<close>

lemma filter_length_mset:
  "mset xs = mset ys \<Longrightarrow> length (filter P xs) = length (filter P ys)"
  by (metis mset_filter size_mset)

text \<open>Swapping two neighbours that are out of order removes an inversion.\<close>

lemma inversions_swap:
  "Suc i < length xs \<Longrightarrow> xs ! Suc i < xs ! i \<Longrightarrow>
   inversions (xs[Suc i := xs ! i, i := xs ! Suc i]) < inversions xs"
proof (induction xs arbitrary: i)
  case Nil
  then show ?case by simp
next
  case (Cons x xs)
  show ?case
  proof (cases i)
    case 0
    with Cons.prems obtain y zs where xs: "xs = y # zs" by (cases xs) auto
    with 0 Cons.prems have "y < x" by simp
    then have "\<not> x < y" by (rule less_not_sym)
    with \<open>y < x\<close> xs 0 show ?thesis by simp
  next
    case (Suc j)
    let ?ys = "xs[Suc j := xs ! j, j := xs ! Suc j]"
    from Suc Cons.prems have j: "Suc j < length xs" "xs ! Suc j < xs ! j" by auto
    have "mset ?ys = mset xs" using j by (simp add: mset_swap)
    then have "length (filter (\<lambda>y. y < x) ?ys) = length (filter (\<lambda>y. y < x) xs)"
      by (rule filter_length_mset)
    moreover have "inversions ?ys < inversions xs" using Cons.IH [OF j] .
    ultimately show ?thesis using Suc by simp
  qed
qed

lemma bubble_pass_mset:
  "bubble_pass p len (A, newn) = Inr (A', n') \<Longrightarrow> mset A' = mset A"
proof (induction p len "(A, newn)" arbitrary: A newn rule: bubble_pass.induct)
  case (1 p len A newn)
  show ?case
  proof (cases "int p < len \<and> p < length A")
    case True
    show ?thesis
    proof (cases "A ! p < A ! (p - 1)")
      case swap: True
      let ?B = "A[p := A ! (p - 1), p - 1 := A ! p]"
      from True swap "1.prems" have "bubble_pass (p + 1) len (?B, p) = Inr (A', n')"
        by (simp add: bubble_pass.simps [of p])
      with "1.hyps"(1) True swap have "mset A' = mset ?B" by simp
      moreover have "mset ?B = mset A"
        using True mset_swap [of "p - 1" A p] by (simp add: less_imp_diff_less)
      ultimately show ?thesis by simp
    next
      case False
      from True False "1.prems" have "bubble_pass (p + 1) len (A, newn) = Inr (A', n')"
        by (simp add: bubble_pass.simps [of p])
      with "1.hyps"(2) True False show ?thesis by simp
    qed
  next
    case False
    with "1.prems" show ?thesis
      by (auto simp: bubble_pass.simps [of p] split: if_splits)
  qed
qed

lemma bubble_pass_length:
  "bubble_pass p len (A, newn) = Inr (A', n') \<Longrightarrow> length A' = length A"
  by (metis bubble_pass_mset size_mset)

text \<open>A pass stays inside the array when \<open>len\<close> does not exceed its size.\<close>

lemma bubble_pass_in_bounds:
  "len \<le> int (length A) \<Longrightarrow> \<exists>A' n'. bubble_pass p len (A, newn) = Inr (A', n')"
proof (induction p len "(A, newn)" arbitrary: A newn rule: bubble_pass.induct)
  case (1 p len A newn)
  show ?case
  proof (cases "int p < len")
    case True
    with "1.prems" have p: "p < length A" by simp
    show ?thesis
    proof (cases "A ! p < A ! (p - 1)")
      case swap: True
      let ?B = "A[p := A ! (p - 1), p - 1 := A ! p]"
      have "len \<le> int (length ?B)" using "1.prems" by simp
      with "1.hyps"(1) True p swap
      have "\<exists>A' n'. bubble_pass (p + 1) len (?B, p) = Inr (A', n')" by simp
      with True p swap show ?thesis by (simp add: bubble_pass.simps [of p])
    next
      case False
      with "1.hyps"(2) True p "1.prems"
      have "\<exists>A' n'. bubble_pass (p + 1) len (A, newn) = Inr (A', n')" by simp
      with True p False show ?thesis by (simp add: bubble_pass.simps [of p])
    qed
  next
    case False
    then show ?thesis by (simp add: bubble_pass.simps [of p])
  qed
qed

text \<open>A pass never adds an inversion, and a pass that changes \<open>newn\<close> removes one.\<close>

lemma bubble_pass_inversions:
  "bubble_pass p len (A, newn) = Inr (A', n') \<Longrightarrow> 1 \<le> p \<Longrightarrow>
   inversions A' \<le> inversions A \<and> (n' \<noteq> newn \<longrightarrow> inversions A' < inversions A)"
proof (induction p len "(A, newn)" arbitrary: A newn rule: bubble_pass.induct)
  case (1 p len A newn)
  show ?case
  proof (cases "int p < len \<and> p < length A")
    case True
    show ?thesis
    proof (cases "A ! p < A ! (p - 1)")
      case swap: True
      let ?B = "A[p := A ! (p - 1), p - 1 := A ! p]"
      from True swap "1.prems" have "bubble_pass (p + 1) len (?B, p) = Inr (A', n')"
        by (simp add: bubble_pass.simps [of p])
      with "1.hyps"(1) True swap have le: "inversions A' \<le> inversions ?B" by simp
      obtain i where i: "p = Suc i" using "1.prems"(2) by (cases p) auto
      have "inversions (A[Suc i := A ! i, i := A ! Suc i]) < inversions A"
        using True swap i by (intro inversions_swap) auto
      then have "inversions ?B < inversions A" using i by simp
      with le show ?thesis by simp
    next
      case False
      from True False "1.prems" have "bubble_pass (p + 1) len (A, newn) = Inr (A', n')"
        by (simp add: bubble_pass.simps [of p])
      with "1.hyps"(2) True False show ?thesis by simp
    qed
  next
    case False
    with "1.prems" show ?thesis
      by (auto simp: bubble_pass.simps [of p] split: if_splits)
  qed
qed

text \<open>
  After a pass over an array whose elements are pairwise comparable, every neighbouring
  pair from position \<open>newn\<close> on is in order.
\<close>

lemma bubble_pass_ordered:
  "bubble_pass p len (A, newn) = Inr (A', n') \<Longrightarrow> 1 \<le> p \<Longrightarrow>
   (\<forall>x\<in>set A. \<forall>y\<in>set A. x \<le> y \<or> y \<le> x) \<Longrightarrow>
   (\<forall>k. newn \<le> k \<and> k < p \<longrightarrow> A ! (k - 1) \<le> A ! k) \<Longrightarrow>
   (\<forall>k. n' \<le> k \<and> int k < len \<longrightarrow> A' ! (k - 1) \<le> A' ! k)"
proof (induction p len "(A, newn)" arbitrary: A newn rule: bubble_pass.induct)
  case (1 p len A newn)
  show ?case
  proof (cases "int p < len \<and> p < length A")
    case True
    show ?thesis
    proof (cases "A ! p < A ! (p - 1)")
      case swap: True
      let ?B = "A[p := A ! (p - 1), p - 1 := A ! p]"
      from True swap "1.prems" have run: "bubble_pass (p + 1) len (?B, p) = Inr (A', n')"
        by (simp add: bubble_pass.simps [of p])
      have "mset ?B = mset A"
        using True mset_swap [of "p - 1" A p] by (simp add: less_imp_diff_less)
      then have "set ?B = set A" by (rule mset_eq_setD)
      with "1.prems"(3) have tot: "\<forall>x\<in>set ?B. \<forall>y\<in>set ?B. x \<le> y \<or> y \<le> x" by simp
      have "\<forall>k. p \<le> k \<and> k < p + 1 \<longrightarrow> ?B ! (k - 1) \<le> ?B ! k"
      proof (intro allI impI)
        fix k assume "p \<le> k \<and> k < p + 1"
        then have "k = p" by simp
        moreover have "?B ! (p - 1) = A ! p" "?B ! p = A ! (p - 1)"
          using True "1.prems"(2) by (simp_all add: nth_list_update less_imp_diff_less)
        ultimately show "?B ! (k - 1) \<le> ?B ! k"
          using swap by (simp add: less_imp_le)
      qed
      with "1.hyps"(1) [OF _ _ _ run _ tot] True swap show ?thesis by simp
    next
      case False
      from True False "1.prems" have run: "bubble_pass (p + 1) len (A, newn) = Inr (A', n')"
        by (simp add: bubble_pass.simps [of p])
      have "A ! (p - 1) \<in> set A" "A ! p \<in> set A"
        using True by (simp_all add: less_imp_diff_less)
      with "1.prems"(3) have "A ! (p - 1) \<le> A ! p \<or> A ! p \<le> A ! (p - 1)" by blast
      with False have here: "A ! (p - 1) \<le> A ! p" by (auto simp: le_less)
      have "\<forall>k. newn \<le> k \<and> k < p + 1 \<longrightarrow> A ! (k - 1) \<le> A ! k"
      proof (intro allI impI)
        fix k assume k: "newn \<le> k \<and> k < p + 1"
        show "A ! (k - 1) \<le> A ! k"
        proof (cases "k = p")
          case True
          with here show ?thesis by simp
        next
          case False
          with k "1.prems"(4) show ?thesis by simp
        qed
      qed
      with "1.hyps"(2) [OF _ _ _ run _ "1.prems"(3)] True False show ?thesis by simp
    qed
  next
    case False
    with "1.prems" show ?thesis
      by (auto simp: bubble_pass.simps [of p] split: if_splits)
  qed
qed

text \<open>
  The \<open>do ... while\<close> loop returns for every array and every \<open>len\<close>, by induction on the
  number of inversions; inside the array bounds it returns a permutation, and if the
  elements are pairwise comparable its first \<open>len\<close> elements are in order.
\<close>

lemma bubbleSort_returns_aux:
  "\<exists>r. bubbleSort A len = Some r \<and>
     (len \<le> int (length A) \<longrightarrow>
        (\<exists>A'. r = Inr A' \<and> mset A' = mset A \<and>
              ((\<forall>x\<in>set A. \<forall>y\<in>set A. x \<le> y \<or> y \<le> x) \<longrightarrow>
               (\<forall>k. 1 \<le> k \<and> int k < len \<longrightarrow> A' ! (k - 1) \<le> A' ! k))))"
proof (induction A rule: measure_induct_rule [where f = inversions])
  case (less A)
  show ?case
  proof (cases "bubble_pass 1 len (A, 1)")
    case (Inl e)
    moreover from Inl have "\<not> len \<le> int (length A)"
      using bubble_pass_in_bounds [of len A 1 1] by auto
    ultimately show ?thesis by (simp add: bubbleSort.simps [of A])
  next
    case (Inr s)
    then obtain A' n' where pass: "bubble_pass 1 len (A, 1) = Inr (A', n')"
      by (cases s) auto
    note m = bubble_pass_mset [OF pass] and l = bubble_pass_length [OF pass]
    from m have st: "set A' = set A" by (rule mset_eq_setD)
    show ?thesis
    proof (cases "1 < n'")
      case True
      with bubble_pass_inversions [OF pass] have "inversions A' < inversions A" by simp
      from less.IH [OF this] pass True m l st show ?thesis
        by (auto simp: bubbleSort.simps [of A])
    next
      case False
      have "(\<forall>x\<in>set A. \<forall>y\<in>set A. x \<le> y \<or> y \<le> x) \<longrightarrow>
               (\<forall>k. 1 \<le> k \<and> int k < len \<longrightarrow> A' ! (k - 1) \<le> A' ! k)"
      proof
        assume tot: "\<forall>x\<in>set A. \<forall>y\<in>set A. x \<le> y \<or> y \<le> x"
        have "\<forall>k. n' \<le> k \<and> int k < len \<longrightarrow> A' ! (k - 1) \<le> A' ! k"
          using bubble_pass_ordered [OF pass _ tot] by simp
        with False show "\<forall>k. 1 \<le> k \<and> int k < len \<longrightarrow> A' ! (k - 1) \<le> A' ! k"
          by auto
      qed
      with pass False m show ?thesis
        by (simp add: bubbleSort.simps [of A])
    qed
  qed
qed

text \<open>Called on a whole array of pairwise comparable elements, it sorts.\<close>

lemma bubbleSort_sorted:
  assumes "\<forall>x\<in>set A. \<forall>y\<in>set A. x \<le> y \<or> y \<le> x"
  shows "\<exists>A'. bubbleSort A (int (length A)) = Some (Inr A') \<and> mset A' = mset A \<and>
           sorted_wrt (\<le>) A'"
proof -
  from bubbleSort_returns_aux [of A "int (length A)"] assms
  obtain A' where r: "bubbleSort A (int (length A)) = Some (Inr A')"
    and m: "mset A' = mset A"
    and o: "\<forall>k. 1 \<le> k \<and> int k < int (length A) \<longrightarrow> A' ! (k - 1) \<le> A' ! k"
    by auto
  have l: "length A' = length A" using m by (metis size_mset)
  have "transp ((\<le>) :: 'a \<Rightarrow> 'a \<Rightarrow> bool)" by (rule transpI) (rule order_trans)
  then have "sorted_wrt (\<le>) A' = (\<forall>i. Suc i < length A' \<longrightarrow> A' ! i \<le> A' ! Suc i)"
    by (rule sorted_wrt_iff_nth_Suc_transp)
  moreover have "\<forall>i. Suc i < length A' \<longrightarrow> A' ! i \<le> A' ! Suc i"
  proof (intro allI impI)
    fix i assume "Suc i < length A'"
    with o [rule_format, of "Suc i"] l show "A' ! i \<le> A' ! Suc i" by simp
  qed
  ultimately have "sorted_wrt (\<le>) A'" by simp
  with r m show ?thesis by blast
qed

text \<open>In a partial order a multiset has at most one sorted arrangement.\<close>

lemma sorted_wrt_le_unique:
  "sorted_wrt (\<le>) xs \<Longrightarrow> sorted_wrt (\<le>) ys \<Longrightarrow> mset xs = mset ys \<Longrightarrow> xs = (ys :: 'a::order list)"
proof (induction xs arbitrary: ys)
  case Nil
  then show ?case by simp
next
  case (Cons x xs)
  from Cons.prems(3) obtain y ys' where ys: "ys = y # ys'" by (cases ys) auto
  have "x \<in> set ys" using Cons.prems(3) by (metis list.set_intros(1) mset_eq_setD)
  with Cons.prems(2) ys have "y \<le> x" by auto
  moreover have "y \<in> set (x # xs)" using Cons.prems(3) ys by (metis list.set_intros(1) mset_eq_setD)
  with Cons.prems(1) have "x \<le> y" by auto
  ultimately have xy: "x = y" by simp
  with Cons.prems ys have "xs = ys'" by (intro Cons.IH) auto
  with xy ys show ?case by simp
qed

text \<open>
  During a pass the element at \<open>p - 1\<close> is the largest of the first \<open>p\<close> elements, so
  after a pass whose last swap was at \<open>newn\<close> no element before \<open>newn\<close> exceeds the one
  at \<open>newn\<close>.
\<close>

lemma bubble_pass_carry:
  "bubble_pass p len (A :: 'a::linorder list, newn) = Inr (A', n') \<Longrightarrow> 1 \<le> p \<Longrightarrow>
   (\<forall>j<p. A ! j \<le> A ! (p - 1)) \<Longrightarrow>
   (1 < newn \<longrightarrow> (\<forall>j<newn. A ! j \<le> A ! newn)) \<Longrightarrow>
   (1 < n' \<longrightarrow> (\<forall>j<n'. A' ! j \<le> A' ! n'))"
proof (induction p len "(A, newn)" arbitrary: A newn rule: bubble_pass.induct)
  case (1 p len A newn)
  show ?case
  proof (cases "int p < len \<and> p < length A")
    case True
    show ?thesis
    proof (cases "A ! p < A ! (p - 1)")
      case swap: True
      let ?B = "A[p := A ! (p - 1), p - 1 := A ! p]"
      from True swap "1.prems" have run: "bubble_pass (p + 1) len (?B, p) = Inr (A', n')"
        by (simp add: bubble_pass.simps [of p])
      have B: "?B ! (p - 1) = A ! p" "?B ! p = A ! (p - 1)"
        using True "1.prems"(2) by (simp_all add: nth_list_update less_imp_diff_less)
      have top: "\<forall>j<p + 1. ?B ! j \<le> ?B ! p"
      proof (intro allI impI)
        fix j assume j: "j < p + 1"
        consider "j = p" | "j = p - 1" | "j < p - 1" using j by linarith
        then show "?B ! j \<le> ?B ! p"
        proof cases
          case 1 then show ?thesis by simp
        next
          case 2 with B swap show ?thesis by simp
        next
          case 3
          then have "?B ! j = A ! j" by simp
          with 3 "1.prems"(3) B show ?thesis by simp
        qed
      qed
      have "\<forall>j<p + 1. ?B ! j \<le> ?B ! (p + 1 - 1)" using top by simp
      moreover have "1 < p \<longrightarrow> (\<forall>j<p. ?B ! j \<le> ?B ! p)" using top by auto
      ultimately show ?thesis
        using "1.hyps"(1) [OF _ _ _ run] True swap by simp
    next
      case False
      from True False "1.prems" have run: "bubble_pass (p + 1) len (A, newn) = Inr (A', n')"
        by (simp add: bubble_pass.simps [of p])
      have "\<forall>j<p + 1. A ! j \<le> A ! (p + 1 - 1)"
      proof (intro allI impI)
        fix j assume j: "j < p + 1"
        show "A ! j \<le> A ! (p + 1 - 1)"
        proof (cases "j = p")
          case True then show ?thesis by simp
        next
          case neq: False
          with j have "j < p" by simp
          with "1.prems"(3) have "A ! j \<le> A ! (p - 1)" by simp
          with False show ?thesis by simp
        qed
      qed
      with "1.hyps"(2) [OF _ _ _ run] True False "1.prems"(4) show ?thesis by simp
    qed
  next
    case False
    with "1.prems" show ?thesis
      by (auto simp: bubble_pass.simps [of p] split: if_splits)
  qed
qed

text \<open>
  If no element before \<open>b\<close> exceeds the one at \<open>b\<close> and the pairs after \<open>b\<close> are in
  order, a pass swaps only before \<open>b\<close>.
\<close>

lemma bubble_pass_below:
  "bubble_pass p len (A :: 'a::linorder list, newn) = Inr (A', n') \<Longrightarrow> 1 \<le> p \<Longrightarrow> newn < b \<Longrightarrow>
   (\<forall>j<b. A ! j \<le> A ! b) \<Longrightarrow>
   (\<forall>k. b < k \<and> int k < len \<longrightarrow> A ! (k - 1) \<le> A ! k) \<Longrightarrow>
   n' < b"
proof (induction p len "(A, newn)" arbitrary: A newn rule: bubble_pass.induct)
  case (1 p len A newn)
  show ?case
  proof (cases "int p < len \<and> p < length A")
    case True
    show ?thesis
    proof (cases "A ! p < A ! (p - 1)")
      case swap: True
      let ?B = "A[p := A ! (p - 1), p - 1 := A ! p]"
      from True swap "1.prems" have run: "bubble_pass (p + 1) len (?B, p) = Inr (A', n')"
        by (simp add: bubble_pass.simps [of p])
      have pb: "p < b"
      proof (rule ccontr)
        assume "\<not> p < b"
        then consider "p = b" | "b < p" by linarith
        then have "A ! (p - 1) \<le> A ! p"
        proof cases
          case 1
          with "1.prems"(2,4) show ?thesis by simp
        next
          case 2
          with "1.prems"(5) True show ?thesis by simp
        qed
        with swap show False by simp
      qed
      have B: "?B ! (p - 1) = A ! p" "?B ! p = A ! (p - 1)"
        using True "1.prems"(2) by (simp_all add: nth_list_update less_imp_diff_less)
      have far: "\<And>k. k \<noteq> p \<Longrightarrow> k \<noteq> p - 1 \<Longrightarrow> ?B ! k = A ! k" by simp
      have "\<forall>j<b. ?B ! j \<le> ?B ! b"
      proof (intro allI impI)
        fix j assume j: "j < b"
        have Bb: "?B ! b = A ! b" using pb by (intro far) auto
        consider "j = p" | "j = p - 1" | "j \<noteq> p \<and> j \<noteq> p - 1" by blast
        then show "?B ! j \<le> ?B ! b"
        proof cases
          case 1
          with B Bb "1.prems"(4) pb show ?thesis by (simp add: less_imp_diff_less)
        next
          case 2
          with B Bb "1.prems"(4) pb show ?thesis by simp
        next
          case 3
          with far [of j] Bb "1.prems"(4) j show ?thesis by simp
        qed
      qed
      moreover have "\<forall>k. b < k \<and> int k < len \<longrightarrow> ?B ! (k - 1) \<le> ?B ! k"
      proof (intro allI impI)
        fix k assume k: "b < k \<and> int k < len"
        with pb have "?B ! (k - 1) = A ! (k - 1)" "?B ! k = A ! k" by (auto intro!: far)
        with k "1.prems"(5) show "?B ! (k - 1) \<le> ?B ! k" by simp
      qed
      ultimately show ?thesis
        using "1.hyps"(1) [OF _ _ _ run] True swap pb by simp
    next
      case False
      from True False "1.prems" have run: "bubble_pass (p + 1) len (A, newn) = Inr (A', n')"
        by (simp add: bubble_pass.simps [of p])
      with "1.hyps"(2) [OF _ _ _ run] True False "1.prems" show ?thesis by simp
    qed
  next
    case False
    with "1.prems" show ?thesis
      by (auto simp: bubble_pass.simps [of p] split: if_splits)
  qed
qed

text \<open>The position of the last swap goes down from one pass to the next.\<close>

lemma bubble_pass_next_lower:
  assumes p1: "bubble_pass 1 len (A :: 'a::linorder list, 1) = Inr (A1, n1)" and n1: "1 < n1"
    and p2: "bubble_pass 1 len (A1, 1) = Inr (A2, n2)"
  shows "n2 < n1"
proof -
  have "1 < n1 \<longrightarrow> (\<forall>j<n1. A1 ! j \<le> A1 ! n1)"
    using bubble_pass_carry [OF p1] by simp
  with n1 have a: "\<forall>j<n1. A1 ! j \<le> A1 ! n1" by simp
  have "\<forall>x\<in>set A. \<forall>y\<in>set A. x \<le> y \<or> y \<le> x" by (simp add: linear)
  then have "\<forall>k. n1 \<le> k \<and> int k < len \<longrightarrow> A1 ! (k - 1) \<le> A1 ! k"
    using bubble_pass_ordered [OF p1] by simp
  then have b: "\<forall>k. n1 < k \<and> int k < len \<longrightarrow> A1 ! (k - 1) \<le> A1 ! k" by auto
  show ?thesis using bubble_pass_below [OF p2 _ n1 a b] by simp
qed

section \<open>Properties of median\<close>

text \<open>The copy loop writes to the local array only.\<close>

lemma median_copy_samples:
  "median_copy i m fr = Inr fr' \<Longrightarrow> samples fr' = samples fr"
proof (induction i m fr rule: median_copy.induct)
  case (1 i m fr)
  show ?case
  proof (cases "int i < m \<and> i < length (samples fr) \<and> i < length (sorted_arr fr)")
    case True
    let ?fr = "fr\<lparr>sorted_arr := (sorted_arr fr)[i := samples fr ! i]\<rparr>"
    from True "1.prems" have "median_copy (i + 1) m ?fr = Inr fr'"
      by (simp add: median_copy.simps [of i])
    with "1.IH" True have "samples fr' = samples ?fr" by simp
    then show ?thesis by simp
  next
    case False
    with "1.prems" show ?thesis
      by (auto simp: median_copy.simps [of i] split: if_splits)
  qed
qed

text \<open>
  Inside the bounds of both arrays the copy loop returns, and slot \<open>k\<close> of the local
  array holds \<open>samples[k]\<close> for every \<open>k\<close> from \<open>i\<close> up to \<open>m\<close>, whatever it held before
  (so the content of the uninitialised array does not matter).
\<close>

lemma median_copy_slots:
  "m \<le> int (length (samples fr)) \<Longrightarrow> length (sorted_arr fr) = nat m \<Longrightarrow>
   \<exists>fr'. median_copy i m fr = Inr fr' \<and> length (sorted_arr fr') = nat m \<and>
     (\<forall>k < nat m. sorted_arr fr' ! k = (if i \<le> k then samples fr ! k else sorted_arr fr ! k))"
proof (induction i m fr rule: median_copy.induct)
  case (1 i m fr)
  show ?case
  proof (cases "int i < m")
    case True
    let ?fr = "fr\<lparr>sorted_arr := (sorted_arr fr)[i := samples fr ! i]\<rparr>"
    from True "1.prems" have b: "i < length (samples fr) \<and> i < length (sorted_arr fr)"
      by auto
    with "1.IH" True "1.prems"
    obtain fr' where r: "median_copy (i + 1) m ?fr = Inr fr'"
      and l: "length (sorted_arr fr') = nat m"
      and s: "\<forall>k < nat m. sorted_arr fr' ! k =
                (if i + 1 \<le> k then samples ?fr ! k else sorted_arr ?fr ! k)"
      by auto
    have "\<forall>k < nat m. sorted_arr fr' ! k = (if i \<le> k then samples fr ! k else sorted_arr fr ! k)"
    proof (intro allI impI)
      fix k assume k: "k < nat m"
      show "sorted_arr fr' ! k = (if i \<le> k then samples fr ! k else sorted_arr fr ! k)"
      proof (cases "k = i")
        case True
        with s k b show ?thesis by simp
      next
        case False
        with s k show ?thesis by auto
      qed
    qed
    with r l True b show ?thesis by (simp add: median_copy.simps [of i])
  next
    case False
    then have "\<forall>k < nat m. \<not> i \<le> k" by auto
    with False "1.prems" show ?thesis by (simp add: median_copy.simps [of i])
  qed
qed

lemma median_copy_take:
  assumes "0 \<le> m" and "m \<le> int (length smp)"
  shows "median_copy 0 m \<lparr>samples = smp, sorted_arr = replicate (nat m) z\<rparr>
           = Inr \<lparr>samples = smp, sorted_arr = take (nat m) smp\<rparr>"
proof -
  let ?fr = "\<lparr>samples = smp, sorted_arr = replicate (nat m) z\<rparr>"
  from median_copy_slots [of m ?fr 0] assms
  obtain fr' where r: "median_copy 0 m ?fr = Inr fr'"
    and l: "length (sorted_arr fr') = nat m"
    and s: "\<forall>k < nat m. sorted_arr fr' ! k = smp ! k"
    by auto
  have "sorted_arr fr' = take (nat m) smp"
    using l s assms by (intro nth_equalityI) auto
  moreover have "samples fr' = smp" using median_copy_samples [OF r] by simp
  ultimately have "fr' = \<lparr>samples = smp, sorted_arr = take (nat m) smp\<rparr>" by simp
  with r show ?thesis by simp
qed

text \<open>Beyond the caller's array the copy loop reads out of bounds.\<close>

lemma median_copy_beyond:
  "int (length (samples fr)) < m \<Longrightarrow> i \<le> length (samples fr) \<Longrightarrow>
   median_copy i m fr = Inl OutOfBounds"
proof (induction i m fr rule: median_copy.induct)
  case (1 i m fr)
  from "1.prems" have lt: "int i < m" by simp
  show ?case
  proof (cases "i < length (samples fr) \<and> i < length (sorted_arr fr)")
    case True
    let ?fr = "fr\<lparr>sorted_arr := (sorted_arr fr)[i := samples fr ! i]\<rparr>"
    have "median_copy (i + 1) m ?fr = Inl OutOfBounds"
      using "1.IH" [OF lt True] "1.prems" True by simp
    with lt True show ?thesis by (simp add: median_copy.simps [of i])
  next
    case False
    show ?thesis by (subst median_copy.simps) (use lt False in auto)
  qed
qed

text \<open>Two floats other than NaN are comparable.\<close>

lemma float_comparable: "x \<noteq> NaN \<Longrightarrow> y \<noteq> NaN \<Longrightarrow> x \<le> y \<or> y \<le> (x :: float)"
  by (cases x; cases y) (auto simp: less_eq_float_def)

text \<open>The selection at the end of \<open>median\<close> is the midpoint rule in float arithmetic.\<close>

lemma median_select_midpoint:
  assumes "1 \<le> m" and "length srt = nat m"
  shows "median_select srt m = Inr (midpoint srt)"
proof -
  have d: "nat (m div 2) = nat m div 2" using assms by (simp add: nat_div_distrib)
  have e: "(m AND 1 = 0) = even (nat m)"
    using assms by (simp add: and_one_eq even_nat_iff mod_2_eq_odd)
  show ?thesis
  proof (cases "even (nat m)")
    case True
    with assms have "2 \<le> m" by (cases "m = 1") auto
    then have "0 \<le> m div 2 - 1" "m div 2 < m" by auto
    moreover have "nat (m div 2 - 1) = nat m div 2 - 1"
      using d by (simp add: nat_diff_distrib')
    ultimately show ?thesis using True e d assms
      by (simp add: median_select_def array_read_def midpoint_def Let_def)
  next
    case False
    have "0 \<le> m div 2" "m div 2 < m" using assms by auto
    then show ?thesis using False e d assms
      by (simp add: median_select_def array_read_def midpoint_def Let_def)
  qed
qed

text \<open>
  So for \<open>m\<close> from 1 to the size of the array \<open>median\<close> returns: it copies the first
  \<open>m\<close> elements, rearranges the copy (into ascending order if none of them is NaN) and
  applies the midpoint rule to it; the caller's array is where it was.
\<close>

lemma median_run_returns:
  assumes "1 \<le> m" and "m \<le> int (length smp)"
  shows "\<exists>srt. mset srt = mset (take (nat m) smp) \<and>
           (NaN \<notin> set (take (nat m) smp) \<longrightarrow> sorted_wrt (\<le>) srt) \<and>
           median_run smp m = Some (Inr (\<lparr>samples = smp, sorted_arr = srt\<rparr>, midpoint srt)) \<and>
           median smp m = Some (Inr (midpoint srt))"
proof -
  let ?c = "take (nat m) smp"
  have l: "int (length ?c) = m" using assms by simp
  from bubbleSort_returns_aux [of ?c "int (length ?c)"]
  obtain srt where b: "bubbleSort ?c (int (length ?c)) = Some (Inr srt)"
    and ms: "mset srt = mset ?c"
    by auto
  have ls: "length srt = nat m" using ms l by (metis nat_int size_mset)
  have so: "NaN \<notin> set ?c \<longrightarrow> sorted_wrt (\<le>) srt"
  proof
    assume "NaN \<notin> set ?c"
    then have "\<forall>x\<in>set ?c. \<forall>y\<in>set ?c. x \<le> y \<or> y \<le> x"
      by (metis float_comparable)
    from bubbleSort_sorted [OF this] b show "sorted_wrt (\<le>) srt" by auto
  qed
  have c: "median_copy 0 m \<lparr>samples = smp, sorted_arr = replicate (nat m) (Finite 0)\<rparr>
             = Inr \<lparr>samples = smp, sorted_arr = ?c\<rparr>"
    using assms by (intro median_copy_take) auto
  have sel: "median_select srt m = Inr (midpoint srt)"
    using assms(1) ls by (rule median_select_midpoint)
  have r: "median_run smp m = Some (Inr (\<lparr>samples = smp, sorted_arr = srt\<rparr>, midpoint srt))"
    using assms b c sel l by (simp add: median_run_def)
  then have "median smp m = Some (Inr (midpoint srt))" by (simp add: median_def)
  with ms so r show ?thesis by blast
qed

text \<open>
  Outside that range \<open>median\<close> leaves the bounds of an array: with \<open>m = 0\<close> the even
  branch reads \<open>sorted[-1]\<close>, with \<open>m\<close> beyond the size of the array the copy loop reads
  past its end, and a negative \<open>m\<close> is no array size.
\<close>

lemma median_zero: "median smp 0 = Some (Inl OutOfBounds)"
proof -
  have "median_copy 0 0 \<lparr>samples = smp, sorted_arr = []\<rparr> = Inr \<lparr>samples = smp, sorted_arr = []\<rparr>"
    by (simp add: median_copy.simps)
  moreover have "bubbleSort ([] :: float list) 0 = Some (Inr [])"
    by (simp add: bubbleSort.simps bubble_pass.simps)
  ultimately show ?thesis
    by (simp add: median_def median_run_def median_select_def array_read_def)
qed

lemma median_beyond: "int (length smp) < m \<Longrightarrow> median smp m = Some (Inl OutOfBounds)"
  by (simp add: median_def median_run_def median_copy_beyond)

lemma median_negative: "m < 0 \<Longrightarrow> median smp m = Some (Inl NegativeArraySize)"
  by (simp add: median_def median_run_def)

section \<open>Properties of the duty cycle\<close>

text \<open>
  The sampling loop inside the bounds of both buffers: it returns after waiting once per
  attempt, the buffers keep their sizes, and slot \<open>k\<close> holds the reading of attempt \<open>k\<close>
  if that attempt succeeded and its previous content otherwise.
\<close>

lemma sample_loop_slots:
  "n \<le> int (length (samples_p25 g)) \<Longrightarrow> n \<le> int (length (samples_p10 g)) \<Longrightarrow>
   \<exists>g'. sample_loop i n d e (g, tr) = Inr (g', tr @ replicate (nat n - i) (Delay d)) \<and>
     length (samples_p25 g') = length (samples_p25 g) \<and>
     length (samples_p10 g') = length (samples_p10 g) \<and>
     iWakeCntr g' = iWakeCntr g \<and>
     (\<forall>k. samples_p25 g' ! k =
        (if i \<le> k \<and> int k < n
         then (case sds_read e k of Reading a b \<Rightarrow> a | ReadError \<Rightarrow> samples_p25 g ! k)
         else samples_p25 g ! k)) \<and>
     (\<forall>k. samples_p10 g' ! k =
        (if i \<le> k \<and> int k < n
         then (case sds_read e k of Reading a b \<Rightarrow> b | ReadError \<Rightarrow> samples_p10 g ! k)
         else samples_p10 g ! k))"
proof (induction i n d e "(g, tr)" arbitrary: g tr rule: sample_loop.induct)
  case (1 i n d e g tr)
  show ?case
  proof (cases "int i < n")
    case False
    then have "nat n - i = 0" by simp
    with False show ?thesis by (auto simp: sample_loop.simps [of i])
  next
    case True
    then have rep: "replicate (nat n - i) (Delay d) = Delay d # replicate (nat n - (i + 1)) (Delay d)"
      by (cases "nat n - i") auto
    from True "1.prems" have b: "i < length (samples_p25 g)" "i < length (samples_p10 g)"
      by auto
    show ?thesis
    proof (cases "sds_read e i")
      case (Reading a b')
      let ?g = "g\<lparr>p25 := a, p10 := b',
                  samples_p25 := (samples_p25 g)[i := a],
                  samples_p10 := (samples_p10 g)[i := b']\<rparr>"
      have bb: "i < length (samples_p25 g) \<and> i < length (samples_p10 g)"
        using b by simp
      have "n \<le> int (length (samples_p25 ?g))" "n \<le> int (length (samples_p10 ?g))"
        using "1.prems" by simp_all
      from "1.hyps"(1) [OF True Reading bb this]
      obtain g' where r: "sample_loop (i + 1) n d e (?g, tr @ [Delay d])
                            = Inr (g', (tr @ [Delay d]) @ replicate (nat n - (i + 1)) (Delay d))"
        and l: "length (samples_p25 g') = length (samples_p25 g)"
               "length (samples_p10 g') = length (samples_p10 g)"
        and w: "iWakeCntr g' = iWakeCntr g"
        and s25: "\<forall>k. samples_p25 g' ! k =
                   (if i + 1 \<le> k \<and> int k < n
                    then (case sds_read e k of Reading a b \<Rightarrow> a | ReadError \<Rightarrow> samples_p25 ?g ! k)
                    else samples_p25 ?g ! k)"
        and s10: "\<forall>k. samples_p10 g' ! k =
                   (if i + 1 \<le> k \<and> int k < n
                    then (case sds_read e k of Reading a b \<Rightarrow> b | ReadError \<Rightarrow> samples_p10 ?g ! k)
                    else samples_p10 ?g ! k)"
        by auto
      have t25: "\<forall>k. samples_p25 g' ! k =
                   (if i \<le> k \<and> int k < n
                    then (case sds_read e k of Reading a b \<Rightarrow> a | ReadError \<Rightarrow> samples_p25 g ! k)
                    else samples_p25 g ! k)"
      proof
        fix k
        show "samples_p25 g' ! k =
                   (if i \<le> k \<and> int k < n
                    then (case sds_read e k of Reading a b \<Rightarrow> a | ReadError \<Rightarrow> samples_p25 g ! k)
                    else samples_p25 g ! k)"
        proof (cases "k = i")
          case True
          with s25 [rule_format, of k] b Reading \<open>int i < n\<close> show ?thesis by simp
        next
          case False
          with s25 [rule_format, of k] show ?thesis
            by (auto split: sds_reading.splits)
        qed
      qed
      have t10: "\<forall>k. samples_p10 g' ! k =
                   (if i \<le> k \<and> int k < n
                    then (case sds_read e k of Reading a b \<Rightarrow> b | ReadError \<Rightarrow> samples_p10 g ! k)
                    else samples_p10 g ! k)"
      proof
        fix k
        show "samples_p10 g' ! k =
                   (if i \<le> k \<and> int k < n
                    then (case sds_read e k of Reading a b \<Rightarrow> b | ReadError \<Rightarrow> samples_p10 g ! k)
                    else samples_p10 g ! k)"
        proof (cases "k = i")
          case True
          with s10 [rule_format, of k] b Reading \<open>int i < n\<close> show ?thesis by simp
        next
          case False
          with s10 [rule_format, of k] show ?thesis
            by (auto split: sds_reading.splits)
        qed
      qed
      from r True Reading b rep
      have "sample_loop i n d e (g, tr) = Inr (g', tr @ replicate (nat n - i) (Delay d))"
        by (simp add: sample_loop.simps [of i])
      with l w t25 t10 show ?thesis by blast
    next
      case ReadError
      from "1.hyps"(2) [OF True ReadError "1.prems"]
      obtain g' where r: "sample_loop (i + 1) n d e (g, tr @ [Delay d])
                            = Inr (g', (tr @ [Delay d]) @ replicate (nat n - (i + 1)) (Delay d))"
        and l: "length (samples_p25 g') = length (samples_p25 g)"
               "length (samples_p10 g') = length (samples_p10 g)"
        and w: "iWakeCntr g' = iWakeCntr g"
        and s25: "\<forall>k. samples_p25 g' ! k =
                   (if i + 1 \<le> k \<and> int k < n
                    then (case sds_read e k of Reading a b \<Rightarrow> a | ReadError \<Rightarrow> samples_p25 g ! k)
                    else samples_p25 g ! k)"
        and s10: "\<forall>k. samples_p10 g' ! k =
                   (if i + 1 \<le> k \<and> int k < n
                    then (case sds_read e k of Reading a b \<Rightarrow> b | ReadError \<Rightarrow> samples_p10 g ! k)
                    else samples_p10 g ! k)"
        by auto
      have t25: "\<forall>k. samples_p25 g' ! k =
                   (if i \<le> k \<and> int k < n
                    then (case sds_read e k of Reading a b \<Rightarrow> a | ReadError \<Rightarrow> samples_p25 g ! k)
                    else samples_p25 g ! k)"
      proof
        fix k
        show "samples_p25 g' ! k =
                   (if i \<le> k \<and> int k < n
                    then (case sds_read e k of Reading a b \<Rightarrow> a | ReadError \<Rightarrow> samples_p25 g ! k)
                    else samples_p25 g ! k)"
        proof (cases "k = i")
          case True
          with s25 [rule_format, of k] ReadError show ?thesis by simp
        next
          case False
          with s25 [rule_format, of k] show ?thesis by auto
        qed
      qed
      have t10: "\<forall>k. samples_p10 g' ! k =
                   (if i \<le> k \<and> int k < n
                    then (case sds_read e k of Reading a b \<Rightarrow> b | ReadError \<Rightarrow> samples_p10 g ! k)
                    else samples_p10 g ! k)"
      proof
        fix k
        show "samples_p10 g' ! k =
                   (if i \<le> k \<and> int k < n
                    then (case sds_read e k of Reading a b \<Rightarrow> b | ReadError \<Rightarrow> samples_p10 g ! k)
                    else samples_p10 g ! k)"
        proof (cases "k = i")
          case True
          with s10 [rule_format, of k] ReadError show ?thesis by simp
        next
          case False
          with s10 [rule_format, of k] show ?thesis by auto
        qed
      qed
      from r True ReadError rep
      have "sample_loop i n d e (g, tr) = Inr (g', tr @ replicate (nat n - i) (Delay d))"
        by (simp add: sample_loop.simps [of i])
      with l w t25 t10 show ?thesis by blast
    qed
  qed
qed

text \<open>
  The cycle from a state whose two buffers have ten slots: the sampling loop returns,
  both medians are computed over all ten slots, one payload is sent and the sleep
  section follows.
\<close>

lemma loop_returns:
  assumes l: "length (samples_p25 g) = 10" "length (samples_p10 g) = 10"
  shows "\<exists>g1 p25median p10median.
     length (samples_p25 g1) = 10 \<and> length (samples_p10 g1) = 10 \<and>
     sample_loop 0 10 1100 e (g, wake_section c)
       = Inr (g1, wake_section c @ replicate 10 (Delay 1100)) \<and>
     median (samples_p25 g1) 10 = Some (Inr p25median) \<and>
     median (samples_p10 g1) 10 = Some (Inr p10median) \<and>
     loop nf c e g = Some (Inr (g1,
        wake_section c @ replicate 10 (Delay 1100)
        @ [SendBytes (encode_payload nf p10median p25median
             (readHumidity e) (readTemperature e)) 8]
        @ sleep_section c))"
proof -
  from sample_loop_slots [of 10 g 0 1100 e "wake_section c"] l
  obtain g1 where a: "sample_loop 0 10 1100 e (g, wake_section c)
                        = Inr (g1, wake_section c @ replicate 10 (Delay 1100))"
    and b: "length (samples_p25 g1) = 10" "length (samples_p10 g1) = 10"
    by auto
  from median_run_returns [of 10 "samples_p25 g1"] b
  obtain p25median where m25: "median (samples_p25 g1) 10 = Some (Inr p25median)"
    by auto
  from median_run_returns [of 10 "samples_p10 g1"] b
  obtain p10median where m10: "median (samples_p10 g1) 10 = Some (Inr p10median)"
    by auto
  have "loop nf c e g = Some (Inr (g1,
        wake_section c @ replicate 10 (Delay 1100)
        @ [SendBytes (encode_payload nf p10median p25median
             (readHumidity e) (readTemperature e)) 8]
        @ sleep_section c))"
    using a m25 m10 by (simp add: loop_def)
  with a b m25 m10 show ?thesis by blast
qed

lemma sent_append: "sent (xs @ ys) = sent xs @ sent ys"
  by (induction xs rule: sent.induct) auto

lemma sent_delays: "sent (replicate n (Delay d)) = []"
  by (induction n) auto

lemma sent_wake_section: "sent (wake_section c) = []"
  by (simp add: wake_section_def)

lemma sent_sleep_section: "sent (sleep_section c) = []"
  by (simp add: sleep_section_def)


section \<open>Properties of the encoding\<close>

lemma low_byte_mask: "(0xff :: 16 word) = mask 8"
  by (simp add: mask_eq_exp_minus_1)

text \<open>The two bytes of a field, high byte first, make up the field again.\<close>

lemma cat_high_low: "word_cat (highByte w) (lowByte w) = w"
  unfolding highByte_def lowByte_def low_byte_mask
  by (rule bit_word_eqI) (auto simp add: bit_simps)

lemma encode_payload_bytes:
  "encode_payload nf a b h t =
     [highByte (fixed_point nf a), lowByte (fixed_point nf a),
      highByte (fixed_point nf b), lowByte (fixed_point nf b),
      highByte h, lowByte h, highByte t, lowByte t]"
  by (simp add: encode_payload_def Let_def eval_nat_numeral)








section \<open>Claims\<close>

text \<open>
  C1 (as amended). The wake counter does not saturate. The interrupt handler counts
  modulo \<open>2^16\<close>: below \<open>UINT16_MAX\<close> one tick adds one, and at \<open>UINT16_MAX\<close> the explicit
  branch of the handler sets the counter to zero. The handler changes nothing else.
\<close>

theorem wake_counter_wraps:
  "ISR_WDT_vect g = g\<lparr>iWakeCntr := iWakeCntr g + 1\<rparr> \<and>
   unat (iWakeCntr (ISR_WDT_vect g)) =
     (if iWakeCntr g = UINT16_MAX then 0 else unat (iWakeCntr g) + 1)"
proof -
  have m: "(iWakeCntr g > UINT16_MAX - 1) = (iWakeCntr g = UINT16_MAX)"
    unfolding UINT16_MAX_def by (simp add: word_less_nat_alt word_eq_iff_unsigned [where ?'a = nat]) 
      (use unsigned_less [of "iWakeCntr g", where ?'a = nat] in auto)
  show ?thesis
  proof (cases "iWakeCntr g = UINT16_MAX")
    case True
    with m show ?thesis by (simp add: ISR_WDT_vect_def UINT16_MAX_def)
  next
    case False
    then have "unat (iWakeCntr g) \<noteq> 65535"
      unfolding UINT16_MAX_def by (simp add: word_eq_iff_unsigned [where ?'a = nat])
    moreover have "unat (iWakeCntr g) < 65536"
      using unsigned_less [of "iWakeCntr g", where ?'a = nat] by simp
    ultimately have "unat (iWakeCntr g + 1) = unat (iWakeCntr g) + 1"
      by (simp add: unat_word_ariths)
    with m False show ?thesis by (simp add: ISR_WDT_vect_def)
  qed
qed

text \<open>The amended statement at the boot state: the first tick counts from 0 to 1.\<close>

theorem wake_counter_wraps_witness:
  "iWakeCntr boot \<noteq> UINT16_MAX \<and> unat (iWakeCntr (ISR_WDT_vect boot)) = 1"
  using wake_counter_wraps [of boot] by (simp add: boot_def UINT16_MAX_def)

text \<open>
  The claim as stated fails: a tick in a state whose counter holds \<open>UINT16_MAX\<close> leaves
  the counter at 0, not at \<open>UINT16_MAX\<close>.
\<close>

theorem wake_counter_counterexample:
  "iWakeCntr (ISR_WDT_vect (boot\<lparr>iWakeCntr := UINT16_MAX\<rparr>)) = 0 \<and>
   iWakeCntr (ISR_WDT_vect (boot\<lparr>iWakeCntr := UINT16_MAX\<rparr>)) \<noteq> UINT16_MAX"
  by (simp add: ISR_WDT_vect_def UINT16_MAX_def boot_def)

text \<open>
  C2 (as amended). No cycle skips the transmission. From a state whose two buffers have
  their ten slots, every cycle, whatever the number of failed reads, hands exactly one
  payload of 8 bytes to \<open>sendBytes\<close>. With sleeping enabled it then puts the sensor to
  sleep and waits: \<open>enterSleepFor(SLEEP_TIME)\<close> with deep power-down, the fallback
  delay without. With sleeping disabled the cycle ends after the transmission.
\<close>

theorem cycle_always_sends:
  assumes "length (samples_p25 g) = 10" and "length (samples_p10 g) = 10"
  shows "\<exists>g1 p. loop nf c e g = Some (Inr (g1,
             (if SLEEP_ON c then [SdsWakeup, Delay (delay1 c)] else [])
             @ replicate 10 (Delay 1100)
             @ [SendBytes p 8]
             @ (if SLEEP_ON c
                then [SdsSleep, if PWR_DOWN c then EnterSleepFor (SLEEP_TIME c)
                                else Delay (fallback_delay c)]
                else []))) \<and>
           length p = 8 \<and>
           sent ((if SLEEP_ON c then [SdsWakeup, Delay (delay1 c)] else [])
             @ replicate 10 (Delay 1100)
             @ [SendBytes p 8]
             @ (if SLEEP_ON c
                then [SdsSleep, if PWR_DOWN c then EnterSleepFor (SLEEP_TIME c)
                                else Delay (fallback_delay c)]
                else [])) = [p]"
proof -
  from loop_returns [OF assms, of e c nf]
  obtain g1 a b where r: "loop nf c e g = Some (Inr (g1,
        wake_section c @ replicate 10 (Delay 1100)
        @ [SendBytes (encode_payload nf a b (readHumidity e) (readTemperature e)) 8]
        @ sleep_section c))"
    by blast
  let ?p = "encode_payload nf a b (readHumidity e) (readTemperature e)"
  have w: "wake_section c = (if SLEEP_ON c then [SdsWakeup, Delay (delay1 c)] else [])"
    by (simp add: wake_section_def)
  have s: "sleep_section c =
      (if SLEEP_ON c
       then [SdsSleep, if PWR_DOWN c then EnterSleepFor (SLEEP_TIME c)
                       else Delay (fallback_delay c)]
       else [])"
    by (simp add: sleep_section_def)
  have l: "length ?p = 8" by (simp add: encode_payload_bytes)
  have "sent (wake_section c @ replicate 10 (Delay 1100) @ [SendBytes ?p 8] @ sleep_section c)
          = [?p]"
    by (simp add: sent_append sent_delays sent_wake_section sent_sleep_section)
  with r l show ?thesis unfolding w s by blast
qed

text \<open>The amended statement at the boot state, with every read failing.\<close>

theorem cycle_always_sends_witness:
  "length (samples_p25 boot) = 10 \<and> length (samples_p10 boot) = 10 \<and>
   SLEEP_ON long_sleep \<and> \<not> PWR_DOWN long_sleep \<and>
   (\<exists>g1 p. loop zero_long long_sleep all_reads_fail boot = Some (Inr (g1,
       [SdsWakeup, Delay (delay1 long_sleep)] @ replicate 10 (Delay 1100)
       @ [SendBytes p 8] @ [SdsSleep, Delay (fallback_delay long_sleep)])) \<and> length p = 8)"
proof -
  have a: "length (samples_p25 boot) = 10" by (simp add: boot_def)
  have b: "length (samples_p10 boot) = 10" by (simp add: boot_def)
  have c: "SLEEP_ON long_sleep \<and> \<not> PWR_DOWN long_sleep" by (simp add: long_sleep_def)
  from cycle_always_sends [OF a b, of zero_long long_sleep all_reads_fail] c
  have "\<exists>g1 p. loop zero_long long_sleep all_reads_fail boot = Some (Inr (g1,
       [SdsWakeup, Delay (delay1 long_sleep)] @ replicate 10 (Delay 1100)
       @ [SendBytes p 8] @ [SdsSleep, Delay (fallback_delay long_sleep)])) \<and> length p = 8"
    by auto
  with a b c show ?thesis by blast
qed

text \<open>
  The claim as stated fails: in the first cycle after boot with all ten reads failing
  (no successful PM2.5 read), the cycle hands the all-zero payload to \<open>sendBytes\<close>.
\<close>

theorem cycle_skips_counterexample:
  "loop zero_long no_sleep all_reads_fail boot
     = Some (Inr (boot, replicate 10 (Delay 1100) @ [SendBytes [0, 0, 0, 0, 0, 0, 0, 0] 8]))"
  by code_simp

text \<open>
  C3 (as amended). The sample buffers always have their ten slots, and the attempt
  number is the slot: after the sampling loop slot \<open>k\<close> holds the reading of attempt
  \<open>k\<close> if that attempt succeeded, and otherwise still holds what it held before the
  cycle. Aggregation always runs over all ten slots: each median is the midpoint of a
  rearrangement of the ten slots of its buffer, and the payload sent is the encoding of
  these two medians.
\<close>

theorem sampling_fills_slots_by_attempt:
  assumes "length (samples_p25 g) = 10" and "length (samples_p10 g) = 10"
  shows "\<exists>g1 tr1 srt25 srt10.
     sample_loop 0 10 1100 e (g, wake_section c) = Inr (g1, tr1) \<and>
     length (samples_p25 g1) = 10 \<and> length (samples_p10 g1) = 10 \<and>
     (\<forall>k<10. samples_p25 g1 ! k =
        (case sds_read e k of Reading a b \<Rightarrow> a | ReadError \<Rightarrow> samples_p25 g ! k)) \<and>
     (\<forall>k<10. samples_p10 g1 ! k =
        (case sds_read e k of Reading a b \<Rightarrow> b | ReadError \<Rightarrow> samples_p10 g ! k)) \<and>
     mset srt25 = mset (samples_p25 g1) \<and> mset srt10 = mset (samples_p10 g1) \<and>
     median (samples_p25 g1) 10 = Some (Inr (midpoint srt25)) \<and>
     median (samples_p10 g1) 10 = Some (Inr (midpoint srt10)) \<and>
     loop nf c e g = Some (Inr (g1, tr1
       @ [SendBytes (encode_payload nf (midpoint srt10) (midpoint srt25)
            (readHumidity e) (readTemperature e)) 8]
       @ sleep_section c))"
proof -
  from loop_returns [OF assms, of e c nf]
  obtain g1 a b where s: "sample_loop 0 10 1100 e (g, wake_section c)
                        = Inr (g1, wake_section c @ replicate 10 (Delay 1100))"
    and l: "length (samples_p25 g1) = 10" "length (samples_p10 g1) = 10"
    and m: "median (samples_p25 g1) 10 = Some (Inr a)"
           "median (samples_p10 g1) 10 = Some (Inr b)"
    and r: "loop nf c e g = Some (Inr (g1,
        wake_section c @ replicate 10 (Delay 1100)
        @ [SendBytes (encode_payload nf b a (readHumidity e) (readTemperature e)) 8]
        @ sleep_section c))"
    by blast
  from median_run_returns [of 10 "samples_p25 g1"] l
  obtain srt25 where s25: "mset srt25 = mset (samples_p25 g1)"
    "median (samples_p25 g1) 10 = Some (Inr (midpoint srt25))"
    by auto
  from median_run_returns [of 10 "samples_p10 g1"] l
  obtain srt10 where s10: "mset srt10 = mset (samples_p10 g1)"
    "median (samples_p10 g1) 10 = Some (Inr (midpoint srt10))"
    by auto
  from m s25 s10 have ab: "a = midpoint srt25" "b = midpoint srt10" by simp_all
  from sample_loop_slots [of 10 g 0 1100 e "wake_section c"] assms s
  have k25: "\<forall>k. samples_p25 g1 ! k =
        (if 0 \<le> k \<and> int k < 10
         then (case sds_read e k of Reading a b \<Rightarrow> a | ReadError \<Rightarrow> samples_p25 g ! k)
         else samples_p25 g ! k)"
    and k10: "\<forall>k. samples_p10 g1 ! k =
        (if 0 \<le> k \<and> int k < 10
         then (case sds_read e k of Reading a b \<Rightarrow> b | ReadError \<Rightarrow> samples_p10 g ! k)
         else samples_p10 g ! k)"
    by auto
  have t25: "\<forall>k<10. samples_p25 g1 ! k =
        (case sds_read e k of Reading a b \<Rightarrow> a | ReadError \<Rightarrow> samples_p25 g ! k)"
    using k25 by simp
  have t10: "\<forall>k<10. samples_p10 g1 ! k =
        (case sds_read e k of Reading a b \<Rightarrow> b | ReadError \<Rightarrow> samples_p10 g ! k)"
    using k10 by simp
  have "loop nf c e g = Some (Inr (g1,
        (wake_section c @ replicate 10 (Delay 1100))
        @ [SendBytes (encode_payload nf (midpoint srt10) (midpoint srt25)
             (readHumidity e) (readTemperature e)) 8]
        @ sleep_section c))"
    using r ab by simp
  with s l t25 t10 s25 s10 show ?thesis by blast
qed

text \<open>The amended statement at the boot state, with the first six reads failing.\<close>

theorem sampling_fills_slots_by_attempt_witness:
  "length (samples_p25 boot) = 10 \<and> length (samples_p10 boot) = 10 \<and>
   (\<exists>g1 tr1. sample_loop 0 10 1100 six_reads_fail (boot, wake_section no_sleep) = Inr (g1, tr1) \<and>
      length (samples_p25 g1) = 10 \<and>
      samples_p25 g1 ! 0 = Finite 0 \<and> samples_p25 g1 ! 6 = Finite 5)"
proof -
  have a: "length (samples_p25 boot) = 10" by (simp add: boot_def)
  have b: "length (samples_p10 boot) = 10" by (simp add: boot_def)
  from sampling_fills_slots_by_attempt [OF a b, of six_reads_fail no_sleep zero_long]
  obtain g1 tr1 where s: "sample_loop 0 10 1100 six_reads_fail (boot, wake_section no_sleep)
                            = Inr (g1, tr1)"
    and l: "length (samples_p25 g1) = 10"
    and k: "\<forall>k<10. samples_p25 g1 ! k =
        (case sds_read six_reads_fail k of Reading a b \<Rightarrow> a | ReadError \<Rightarrow> samples_p25 boot ! k)"
    by blast
  from k [rule_format, of 0] have "samples_p25 g1 ! 0 = Finite 0"
    by (simp add: six_reads_fail_def boot_def)
  moreover from k [rule_format, of 6] have "samples_p25 g1 ! 6 = Finite 5"
    by (simp add: six_reads_fail_def)
  ultimately show ?thesis using a b s l by blast
qed

text \<open>
  The claim as stated fails: in the first cycle after boot with the first six reads
  failing and the other four reading PM2.5 = 5, the PM2.5 buffer handed to \<open>median\<close>
  still has ten entries, six of them the zeroes no read of this cycle produced, and the
  median over the ten is 0.
\<close>

theorem sample_set_counterexample:
  "sample_loop 0 10 1100 six_reads_fail (boot, [])
     = Inr (boot\<lparr>p10 := Finite 8, p25 := Finite 5,
                samples_p10 := [Finite 0, Finite 0, Finite 0, Finite 0, Finite 0, Finite 0,
                                Finite 8, Finite 8, Finite 8, Finite 8],
                samples_p25 := [Finite 0, Finite 0, Finite 0, Finite 0, Finite 0, Finite 0,
                                Finite 5, Finite 5, Finite 5, Finite 5]\<rparr>,
            replicate 10 (Delay 1100)) \<and>
   median [Finite 0, Finite 0, Finite 0, Finite 0, Finite 0, Finite 0,
           Finite 5, Finite 5, Finite 5, Finite 5] 10 = Some (Inr (Finite 0)) \<and>
   median [Finite 5, Finite 5, Finite 5, Finite 5] 4 = Some (Inr (Finite 5))"
proof -
  have a: "sample_loop 0 10 1100 six_reads_fail (boot, [])
     = Inr (boot\<lparr>p10 := Finite 8, p25 := Finite 5,
                samples_p10 := [Finite 0, Finite 0, Finite 0, Finite 0, Finite 0, Finite 0,
                                Finite 8, Finite 8, Finite 8, Finite 8],
                samples_p25 := [Finite 0, Finite 0, Finite 0, Finite 0, Finite 0, Finite 0,
                                Finite 5, Finite 5, Finite 5, Finite 5]\<rparr>,
            replicate 10 (Delay 1100))"
    by code_simp
  have b: "median [Finite 0, Finite 0, Finite 0, Finite 0, Finite 0, Finite 0,
           Finite 5, Finite 5, Finite 5, Finite 5] 10 = Some (Inr (Finite 0))"
    by code_simp
  have c: "median [Finite 5, Finite 5, Finite 5, Finite 5] 4 = Some (Inr (Finite 5))"
    by code_simp
  from a b c show ?thesis by blast
qed

text \<open>
  C4 (as amended). \<open>median\<close> makes no check for an empty sample set and reports no
  error. For every \<open>m\<close> from 1 to the size of the array it returns a value, the midpoint
  of a rearrangement of the first \<open>m\<close> slots as they are, written in this cycle or not.
  In every other case it leaves the bounds of an array, which is undefined behaviour in
  C and no error report: with \<open>m = 0\<close> it reads \<open>sorted[-1]\<close> and \<open>sorted[0]\<close> of its
  empty local array, with \<open>m\<close> beyond the size it reads past the caller's array, and a
  negative \<open>m\<close> is no array size.
\<close>

theorem median_always_returns:
  "(1 \<le> m \<and> m \<le> int (length smp) \<longrightarrow>
      (\<exists>srt. mset srt = mset (take (nat m) smp) \<and> median smp m = Some (Inr (midpoint srt)))) \<and>
   (m = 0 \<longrightarrow> median smp m = Some (Inl OutOfBounds)) \<and>
   (int (length smp) < m \<longrightarrow> median smp m = Some (Inl OutOfBounds)) \<and>
   (m < 0 \<longrightarrow> median smp m = Some (Inl NegativeArraySize))"
proof (intro conjI impI)
  assume "1 \<le> m \<and> m \<le> int (length smp)"
  then have "1 \<le> m" and "m \<le> int (length smp)" by simp_all
  from median_run_returns [OF this]
  show "\<exists>srt. mset srt = mset (take (nat m) smp) \<and> median smp m = Some (Inr (midpoint srt))"
    by blast
next
  assume "m = 0"
  then show "median smp m = Some (Inl OutOfBounds)" by (simp add: median_zero)
next
  assume "int (length smp) < m"
  then show "median smp m = Some (Inl OutOfBounds)" by (rule median_beyond)
next
  assume "m < 0"
  then show "median smp m = Some (Inl NegativeArraySize)" by (rule median_negative)
qed

text \<open>The amended statement at the buffer of the boot state and at the empty array.\<close>

theorem median_always_returns_witness:
  "(1 :: int) \<le> 10 \<and> (10 :: int) \<le> int (length (samples_p25 boot)) \<and>
   (\<exists>srt. mset srt = mset (take (nat 10) (samples_p25 boot)) \<and>
      median (samples_p25 boot) 10 = Some (Inr (midpoint srt))) \<and>
   median [] 0 = Some (Inl OutOfBounds) \<and>
   int (length [Finite 1]) < 2 \<and> median [Finite 1] 2 = Some (Inl OutOfBounds) \<and>
   (- 1 :: int) < 0 \<and> median [Finite 1] (- 1) = Some (Inl NegativeArraySize)"
proof -
  have a: "(1 :: int) \<le> 10 \<and> (10 :: int) \<le> int (length (samples_p25 boot))"
    by (simp add: boot_def)
  with median_always_returns [of 10 "samples_p25 boot"]
  have b: "\<exists>srt. mset srt = mset (take (nat 10) (samples_p25 boot)) \<and>
      median (samples_p25 boot) 10 = Some (Inr (midpoint srt))"
    by blast
  from median_always_returns [of 0 "[]"]
  have c: "median [] 0 = Some (Inl OutOfBounds)" by simp
  from median_always_returns [of 2 "[Finite 1]"]
  have d: "median [Finite 1] 2 = Some (Inl OutOfBounds)" by simp
  from median_always_returns [of "- 1" "[Finite 1]"]
  have e: "median [Finite 1] (- 1) = Some (Inl NegativeArraySize)" by simp
  from a b c d e show ?thesis by simp
qed

text \<open>
  The claim as stated fails: the buffer of the boot state holds no reading at all, and
  \<open>median\<close> returns the value zero for it.
\<close>

theorem median_empty_counterexample:
  "median (samples_p25 boot) 10 = Some (Inr (Finite 0))"
  by code_simp

text \<open>
  C5 (as amended). For every non-empty list \<open>S\<close> of floats none of which is NaN,
  \<open>median\<close> called on \<open>S\<close> with its length returns the value obtained by sorting \<open>S\<close>
  ascending and applying the midpoint rule in float arithmetic (odd count: the middle
  element; even count: the float sum of the two middle elements, rounded to the nearest
  float or to an infinity, divided by 2), and it returns the same value on every
  permutation of \<open>S\<close>.
\<close>

theorem median_sorts_and_takes_midpoint:
  assumes "S \<noteq> []" and "NaN \<notin> set S"
  shows "(\<exists>srt. mset srt = mset S \<and> sorted_wrt (\<le>) srt \<and>
            median S (int (length S)) = Some (Inr (midpoint srt))) \<and>
         (\<forall>T. mset T = mset S \<longrightarrow> median T (int (length T)) = median S (int (length S)))"
proof -
  have eq: "\<exists>srt. mset srt = mset U \<and> sorted_wrt (\<le>) srt \<and>
              median U (int (length U)) = Some (Inr (midpoint srt))"
    if "U \<noteq> []" and "NaN \<notin> set U" for U
  proof -
    from that have "1 \<le> int (length U)" by (cases U) auto
    from median_run_returns [OF this, of U] that(2) show ?thesis by auto
  qed
  have "median T (int (length T)) = median S (int (length S))" if T: "mset T = mset S" for T
  proof -
    from T assms have ne: "T \<noteq> []" by auto
    from T have "set T = set S" by (rule mset_eq_setD)
    with assms have nn: "NaN \<notin> set T" by simp
    from eq [OF ne nn] obtain t where t: "mset t = mset T" "sorted_wrt (\<le>) t"
      "median T (int (length T)) = Some (Inr (midpoint t))" by blast
    from eq [OF assms] obtain s where s: "mset s = mset S" "sorted_wrt (\<le>) s"
      "median S (int (length S)) = Some (Inr (midpoint s))" by blast
    from t(1) s(1) T have "mset t = mset s" by simp
    with t(2) s(2) have "t = s" by (intro sorted_wrt_le_unique)
    with t(3) s(3) show ?thesis by simp
  qed
  with eq [OF assms] show ?thesis by blast
qed

text \<open>
  The example of the specification, \<open>[10, 12, 11, 13, 100]\<close> with median 12, and one of
  its permutations.
\<close>

theorem median_sorts_and_takes_midpoint_witness:
  "[Finite 10, Finite 12, Finite 11, Finite 13, Finite 100] \<noteq> [] \<and>
   NaN \<notin> set [Finite 10, Finite 12, Finite 11, Finite 13, Finite 100] \<and>
   mset [Finite 100, Finite 13, Finite 12, Finite 11, Finite 10]
     = mset [Finite 10, Finite 12, Finite 11, Finite 13, Finite 100] \<and>
   median [Finite 10, Finite 12, Finite 11, Finite 13, Finite 100] 5 = Some (Inr (Finite 12)) \<and>
   median [Finite 100, Finite 13, Finite 12, Finite 11, Finite 10] 5 = Some (Inr (Finite 12))"
proof -
  let ?S = "[Finite 10, Finite 12, Finite 11, Finite 13, Finite 100]"
  let ?T = "[Finite 100, Finite 13, Finite 12, Finite 11, Finite 10]"
  have ne: "?S \<noteq> []" by simp
  have nn: "NaN \<notin> set ?S" by simp
  have p: "mset ?T = mset ?S" by simp
  have a: "median ?S 5 = Some (Inr (Finite 12))" by code_simp
  from median_sorts_and_takes_midpoint [OF ne nn]
  have "mset ?T = mset ?S \<longrightarrow> median ?T (int (length ?T)) = median ?S (int (length ?S))"
    by blast
  with p a have "median ?T 5 = Some (Inr (Finite 12))" by simp
  with ne nn p a show ?thesis by blast
qed

text \<open>
  The claim as stated fails in three ways. The float sum of 16777216 and 1 is
  16777216, so the median of the two is 8388608 and not their arithmetic mean
  8388608.5. The float sum of \<open>2 ^ 127\<close> and \<open>2 ^ 127\<close> is infinite, and so is the median
  of the two, while their arithmetic mean \<open>2 ^ 127\<close> is a float. And with a NaN among
  three elements two orders of the same elements give different medians.
\<close>

theorem median_mean_counterexample:
  "median [Finite 16777216, Finite 1] 2 = Some (Inr (Finite 8388608)) \<and>
   spec_median [16777216, 1] = 16777217 / 2 \<and>
   median [Finite (2 ^ 127), Finite (2 ^ 127)] 2 = Some (Inr PInf) \<and>
   spec_median [2 ^ 127, 2 ^ 127] = 2 ^ 127 \<and>
   fl32 (2 ^ 127) = Finite (2 ^ 127) \<and>
   median [Finite 2, NaN, Finite 1] 3 = Some (Inr NaN) \<and>
   median [NaN, Finite 2, Finite 1] 3 = Some (Inr (Finite 1))"
proof -
  have a: "median [Finite 16777216, Finite 1] 2 = Some (Inr (Finite 8388608))" by code_simp
  have b: "spec_median [16777216, 1] = 16777217 / 2" by code_simp
  have c: "median [Finite (2 ^ 127), Finite (2 ^ 127)] 2 = Some (Inr PInf)" by code_simp
  have d: "spec_median [2 ^ 127, 2 ^ 127] = 2 ^ 127" by code_simp
  have e: "fl32 (2 ^ 127) = Finite (2 ^ 127)" by code_simp
  have f: "median [Finite 2, NaN, Finite 1] 3 = Some (Inr NaN)" by code_simp
  have g: "median [NaN, Finite 2, Finite 1] 3 = Some (Inr (Finite 1))" by code_simp
  from a b c d e f g show ?thesis by blast
qed

text \<open>
  C6. Every payload is 8 bytes in the order PM10 high, PM10 low, PM2.5 high, PM2.5 low,
  humidity high, humidity low, temperature high, temperature low: each pair of bytes,
  read high byte first, is the 16-bit field, and byte 0 is the high byte of the PM10
  field. Every cycle from a state whose buffers have their ten slots sends exactly this
  payload, built from the two medians and the two ambient readings.
\<close>

theorem payload_layout:
  "encode_payload nf a b h t =
     [highByte (fixed_point nf a), lowByte (fixed_point nf a),
      highByte (fixed_point nf b), lowByte (fixed_point nf b),
      highByte h, lowByte h, highByte t, lowByte t] \<and>
   length (encode_payload nf a b h t) = 8 \<and>
   encode_payload nf a b h t ! 0 = highByte (fixed_point nf a) \<and>
   word_cat (encode_payload nf a b h t ! 0) (encode_payload nf a b h t ! 1) = fixed_point nf a \<and>
   word_cat (encode_payload nf a b h t ! 2) (encode_payload nf a b h t ! 3) = fixed_point nf b \<and>
   word_cat (encode_payload nf a b h t ! 4) (encode_payload nf a b h t ! 5) = h \<and>
   word_cat (encode_payload nf a b h t ! 6) (encode_payload nf a b h t ! 7) = t \<and>
   (length (samples_p25 g) = 10 \<and> length (samples_p10 g) = 10 \<longrightarrow>
      (\<exists>g1 tr p10median p25median.
         median (samples_p10 g1) 10 = Some (Inr p10median) \<and>
         median (samples_p25 g1) 10 = Some (Inr p25median) \<and>
         loop nf c e g = Some (Inr (g1, tr
           @ [SendBytes (encode_payload nf p10median p25median
                (readHumidity e) (readTemperature e)) 8]
           @ sleep_section c))))"
proof -
  have "length (samples_p25 g) = 10 \<and> length (samples_p10 g) = 10 \<longrightarrow>
      (\<exists>g1 tr p10median p25median.
         median (samples_p10 g1) 10 = Some (Inr p10median) \<and>
         median (samples_p25 g1) 10 = Some (Inr p25median) \<and>
         loop nf c e g = Some (Inr (g1, tr
           @ [SendBytes (encode_payload nf p10median p25median
                (readHumidity e) (readTemperature e)) 8]
           @ sleep_section c)))"
  proof
    assume l: "length (samples_p25 g) = 10 \<and> length (samples_p10 g) = 10"
    then have l1: "length (samples_p25 g) = 10" and l2: "length (samples_p10 g) = 10"
      by simp_all
    from loop_returns [OF l1 l2, of e c nf]
    obtain g1 p25median p10median
      where m10: "median (samples_p10 g1) 10 = Some (Inr p10median)"
      and m25: "median (samples_p25 g1) 10 = Some (Inr p25median)"
      and r: "loop nf c e g = Some (Inr (g1,
        wake_section c @ replicate 10 (Delay 1100)
        @ [SendBytes (encode_payload nf p10median p25median
             (readHumidity e) (readTemperature e)) 8]
        @ sleep_section c))"
      by blast
    from r have "loop nf c e g = Some (Inr (g1,
        (wake_section c @ replicate 10 (Delay 1100))
        @ [SendBytes (encode_payload nf p10median p25median
             (readHumidity e) (readTemperature e)) 8]
        @ sleep_section c))"
      by simp
    with m10 m25 show "\<exists>g1 tr p10median p25median.
         median (samples_p10 g1) 10 = Some (Inr p10median) \<and>
         median (samples_p25 g1) 10 = Some (Inr p25median) \<and>
         loop nf c e g = Some (Inr (g1, tr
           @ [SendBytes (encode_payload nf p10median p25median
                (readHumidity e) (readTemperature e)) 8]
           @ sleep_section c))"
      by blast
  qed
  then show ?thesis
    by (simp add: encode_payload_bytes cat_high_low)
qed

text \<open>
  A cycle with every read giving PM2.5 = 15 and PM10 = 20.98, humidity 55 and
  temperature 21: the fields are 2098, 1500, 55 and 21.
\<close>

theorem payload_layout_witness:
  "length (samples_p25 boot) = 10 \<and> length (samples_p10 boot) = 10 \<and>
   fl32 (2098 / 100) = Finite (5499781 / 262144) \<and>
   encode_payload zero_long (Finite (5499781 / 262144)) (Finite 15) 55 21
     = [0x08, 0x32, 0x05, 0xDC, 0x00, 0x37, 0x00, 0x15] \<and>
   word_cat (0x08 :: 8 word) (0x32 :: 8 word) = (2098 :: 16 word) \<and>
   (\<exists>g1 tr a b. loop zero_long no_sleep steady_reads boot = Some (Inr (g1, tr
       @ [SendBytes (encode_payload zero_long a b
            (readHumidity steady_reads) (readTemperature steady_reads)) 8]
       @ sleep_section no_sleep)))"
proof -
  have a: "length (samples_p25 boot) = 10 \<and> length (samples_p10 boot) = 10"
    by (simp add: boot_def)
  have f: "fl32 (2098 / 100) = Finite (5499781 / 262144)" by code_simp
  have b: "encode_payload zero_long (Finite (5499781 / 262144)) (Finite 15) 55 21
             = [0x08, 0x32, 0x05, 0xDC, 0x00, 0x37, 0x00, 0x15]"
    by code_simp
  have c: "fixed_point zero_long (Finite (5499781 / 262144)) = 2098" by code_simp
  note t = payload_layout [where nf = zero_long and a = "Finite (5499781 / 262144)"
      and b = "Finite 15" and h = 55 and t = 21 and g = boot
      and c = no_sleep and e = steady_reads]
  from t have "word_cat
      (encode_payload zero_long (Finite (5499781 / 262144)) (Finite 15) 55 21 ! 0)
      (encode_payload zero_long (Finite (5499781 / 262144)) (Finite 15) 55 21 ! 1)
        = fixed_point zero_long (Finite (5499781 / 262144))"
    by blast
  then have d: "word_cat (0x08 :: 8 word) (0x32 :: 8 word) = (2098 :: 16 word)"
    unfolding b c by simp
  from t a have "\<exists>g1 tr a b. loop zero_long no_sleep steady_reads boot = Some (Inr (g1, tr
       @ [SendBytes (encode_payload zero_long a b
            (readHumidity steady_reads) (readTemperature steady_reads)) 8]
       @ sleep_section no_sleep))"
    by blast
  with a f b d show ?thesis by blast
qed




text \<open>
  C8. The claim: without deep power-down the busy-wait delay at the end of a cycle is
  \<open>max(0, T - W - M)\<close>, never negative or wrapped around. The code does not keep it: it
  computes \<open>T - (W + M)\<close> in \<open>long\<close> and passes it to \<open>delay\<close> as \<open>unsigned long\<close>
  without a check. With a sleep interval of 1 minute and a warm-up of 60 seconds
  \<open>T - W - M\<close> is \<open>-11000\<close>, so \<open>max(0, T - W - M)\<close> is 0, and the cycle ends with a
  delay of \<open>2^32 - 11000\<close> milliseconds.
\<close>

theorem fallback_delay_underflow:
  "SLEEP_ON short_sleep \<and> \<not> PWR_DOWN short_sleep \<and>
   max 0 (60000 * SLEEP_TIME short_sleep - 1000 * FAN_SPINUP short_sleep - 11000) = 0 \<and>
   unat (fallback_delay short_sleep) = 4294956296 \<and>
   sleep_section short_sleep = [SdsSleep, Delay 4294956296] \<and>
   loop zero_long short_sleep all_reads_fail boot
     = Some (Inr (boot, [SdsWakeup, Delay 60000] @ replicate 10 (Delay 1100)
         @ [SendBytes [0, 0, 0, 0, 0, 0, 0, 0] 8, SdsSleep, Delay 4294956296]))"
proof -
  have a: "SLEEP_ON short_sleep \<and> \<not> PWR_DOWN short_sleep \<and>
     max 0 (60000 * SLEEP_TIME short_sleep - 1000 * FAN_SPINUP short_sleep - 11000) = 0"
    by (simp add: short_sleep_def)
  have b: "unat (fallback_delay short_sleep) = 4294956296"
    by (simp add: fallback_delay_def delay1_def short_sleep_def)
  have c: "sleep_section short_sleep = [SdsSleep, Delay 4294956296]"
    by (simp add: sleep_section_def fallback_delay_def delay1_def short_sleep_def)
  have d: "loop zero_long short_sleep all_reads_fail boot
     = Some (Inr (boot, [SdsWakeup, Delay 60000] @ replicate 10 (Delay 1100)
         @ [SendBytes [0, 0, 0, 0, 0, 0, 0, 0] 8, SdsSleep, Delay 4294956296]))"
    by code_simp
  from a b c d show ?thesis by blast
qed

text \<open>
  C9. \<open>median\<close> leaves the array it is given unchanged: in every run that returns a
  value, the caller's array is afterwards what it was before, while the local copy holds
  a rearrangement of its first \<open>m\<close> elements (in ascending order if none of them is
  NaN). Every call with \<open>m\<close> between 1 and the size of the array is such a run.
\<close>

theorem median_keeps_samples:
  "(median_run smp m = Some (Inr (fr, v)) \<longrightarrow> samples fr = smp) \<and>
   (1 \<le> m \<and> m \<le> int (length smp) \<longrightarrow>
      (\<exists>srt v. median_run smp m = Some (Inr (\<lparr>samples = smp, sorted_arr = srt\<rparr>, v)) \<and>
         mset srt = mset (take (nat m) smp) \<and>
         (NaN \<notin> set (take (nat m) smp) \<longrightarrow> sorted_wrt (\<le>) srt)))"
proof (intro conjI impI)
  assume r: "median_run smp m = Some (Inr (fr, v))"
  then have m: "\<not> m < 0" by (auto simp: median_run_def)
  let ?fr = "\<lparr>samples = smp, sorted_arr = replicate (nat m) (Finite 0)\<rparr>"
  from r m obtain fr0 where c: "median_copy 0 m ?fr = Inr fr0"
    by (cases "median_copy 0 m ?fr") (auto simp: median_run_def)
  from r m c obtain srt where "fr = fr0\<lparr>sorted_arr := srt\<rparr>"
    by (auto simp: median_run_def split: option.splits sum.splits)
  moreover have "samples fr0 = smp" using median_copy_samples [OF c] by simp
  ultimately show "samples fr = smp" by simp
next
  assume a: "1 \<le> m \<and> m \<le> int (length smp)"
  then have "1 \<le> m" and "m \<le> int (length smp)" by simp_all
  from median_run_returns [OF this]
  show "\<exists>srt v. median_run smp m = Some (Inr (\<lparr>samples = smp, sorted_arr = srt\<rparr>, v)) \<and>
         mset srt = mset (take (nat m) smp) \<and>
         (NaN \<notin> set (take (nat m) smp) \<longrightarrow> sorted_wrt (\<le>) srt)"
    by blast
qed

theorem median_keeps_samples_witness:
  "median_run [Finite 3, Finite 1, Finite 2] 3
     = Some (Inr (\<lparr>samples = [Finite 3, Finite 1, Finite 2],
                   sorted_arr = [Finite 1, Finite 2, Finite 3]\<rparr>, Finite 2)) \<and>
   samples \<lparr>samples = [Finite 3, Finite 1, Finite 2],
            sorted_arr = [Finite 1, Finite 2, Finite 3]\<rparr> = [Finite 3, Finite 1, Finite 2] \<and>
   (1 :: int) \<le> 3 \<and> (3 :: int) \<le> int (length [Finite 3, Finite 1, Finite 2])"
proof -
  have r: "median_run [Finite 3, Finite 1, Finite 2] 3
     = Some (Inr (\<lparr>samples = [Finite 3, Finite 1, Finite 2],
                   sorted_arr = [Finite 1, Finite 2, Finite 3]\<rparr>, Finite 2))"
    by code_simp
  from median_keeps_samples [of "[Finite 3, Finite 1, Finite 2]" 3
      "\<lparr>samples = [Finite 3, Finite 1, Finite 2], sorted_arr = [Finite 1, Finite 2, Finite 3]\<rparr>"
      "Finite 2"] r
  have "samples \<lparr>samples = [Finite 3, Finite 1, Finite 2],
                 sorted_arr = [Finite 1, Finite 2, Finite 3]\<rparr> = [Finite 3, Finite 1, Finite 2]"
    by blast
  with r show ?thesis by simp
qed

text \<open>
  C10. \<open>bubbleSort\<close> terminates for every array and every length: the \<open>do ... while\<close>
  loop returns (for a \<open>len\<close> within the array, with the sorted array and without a
  fault). A pass that leaves \<open>newn\<close> at 1 ends the loop, and of two passes in a row the
  second has its last swap at a strictly lower position than the first. The loop also
  returns for every array of floats, NaN included.
\<close>

theorem bubbleSort_terminates:
  fixes A :: "'a::linorder list" and F :: "float list"
  shows "(\<exists>r. bubbleSort A len = Some r) \<and>
   (len \<le> int (length A) \<longrightarrow> (\<exists>A'. bubbleSort A len = Some (Inr A'))) \<and>
   (\<forall>A1 n1. bubble_pass 1 len (A, 1) = Inr (A1, n1) \<and> n1 \<le> 1 \<longrightarrow>
      bubbleSort A len = Some (Inr A1)) \<and>
   (\<forall>A1 n1 A2 n2. bubble_pass 1 len (A, 1) = Inr (A1, n1) \<and> 1 < n1 \<and>
      bubble_pass 1 len (A1, 1) = Inr (A2, n2) \<longrightarrow> n2 < n1) \<and>
   (\<exists>r. bubbleSort F len = Some r) \<and>
   (len \<le> int (length F) \<longrightarrow> (\<exists>F'. bubbleSort F len = Some (Inr F')))"
proof (intro conjI)
  show "\<exists>r. bubbleSort A len = Some r"
    using bubbleSort_returns_aux [of A len] by blast
  show "len \<le> int (length A) \<longrightarrow> (\<exists>A'. bubbleSort A len = Some (Inr A'))"
    using bubbleSort_returns_aux [of A len] by blast
  show "\<forall>A1 n1. bubble_pass 1 len (A, 1) = Inr (A1, n1) \<and> n1 \<le> 1 \<longrightarrow>
      bubbleSort A len = Some (Inr A1)"
    by (simp add: bubbleSort.simps [of A])
  show "\<forall>A1 n1 A2 n2. bubble_pass 1 len (A, 1) = Inr (A1, n1) \<and> 1 < n1 \<and>
      bubble_pass 1 len (A1, 1) = Inr (A2, n2) \<longrightarrow> n2 < n1"
    using bubble_pass_next_lower by blast
  show "\<exists>r. bubbleSort F len = Some r"
    using bubbleSort_returns_aux [of F len] by blast
  show "len \<le> int (length F) \<longrightarrow> (\<exists>F'. bubbleSort F len = Some (Inr F'))"
    using bubbleSort_returns_aux [of F len] by blast
qed

theorem bubbleSort_terminates_witness:
  "bubble_pass 1 3 ([3, 1, 2 :: real], 1) = Inr ([1, 2, 3], 2) \<and>
   bubble_pass 1 3 ([1, 2, 3 :: real], 1) = Inr ([1, 2, 3], 1) \<and>
   (1 :: nat) < 2 \<and>
   bubbleSort [3, 1, 2 :: real] 3 = Some (Inr [1, 2, 3]) \<and>
   (3 :: int) \<le> int (length [Finite 2, NaN, Finite 1]) \<and>
   (\<exists>F'. bubbleSort [Finite 2, NaN, Finite 1] 3 = Some (Inr F'))"
proof -
  have a: "bubble_pass 1 3 ([3, 1, 2 :: real], 1) = Inr ([1, 2, 3], 2)"
    by (simp add: bubble_pass.simps)
  have b: "bubble_pass 1 3 ([1, 2, 3 :: real], 1) = Inr ([1, 2, 3], 1)"
    by (simp add: bubble_pass.simps)
  note t = bubbleSort_terminates [of "[1, 2, 3 :: real]" 3 "[Finite 2, NaN, Finite 1]"]
  from t b have "bubbleSort [1, 2, 3 :: real] 3 = Some (Inr [1, 2, 3])" by simp
  then have c: "bubbleSort [3, 1, 2 :: real] 3 = Some (Inr [1, 2, 3])"
    using a by (simp add: bubbleSort.simps [of "[3, 1, 2]"])
  have d: "(3 :: int) \<le> int (length [Finite 2, NaN, Finite 1])" by simp
  with t have "\<exists>F'. bubbleSort [Finite 2, NaN, Finite 1] 3 = Some (Inr F')" by blast
  with a b c d show ?thesis by simp
qed

end
